theory Spec2Isabelle
  imports Main "HOL-Library.Word" "HOL-Library.Sublist"
begin

section \<open>JavaScript strings\<close>

text \<open>
  A JavaScript string is a sequence of UTF-16 code units; the bytes that travel between
  the upstream API, the relay and the browser are octets. \<open>js\<close> and \<open>octets\<close> write an
  ASCII literal in either type.
\<close>

type_synonym byte = "8 word"
type_synonym jsstring = "16 word list"

definition js :: "string \<Rightarrow> jsstring" where
  "js s = map of_char s"

definition octets :: "string \<Rightarrow> byte list" where
  "octets s = map of_char s"

text \<open>The class \<open>\s\<close> of regular expressions, which is also what \<open>trim()\<close> removes.\<close>

definition is_space :: "16 word \<Rightarrow> bool" where
  "is_space c = (c = 0x09 \<or> c = 0x0A \<or> c = 0x0B \<or> c = 0x0C \<or> c = 0x0D \<or> c = 0x20
     \<or> c = 0xA0 \<or> c = 0x1680 \<or> (0x2000 \<le> c \<and> c \<le> 0x200A) \<or> c = 0x2028
     \<or> c = 0x2029 \<or> c = 0x202F \<or> c = 0x205F \<or> c = 0x3000 \<or> c = 0xFEFF)"

definition trim :: "jsstring \<Rightarrow> jsstring" where
  "trim s = rev (dropWhile is_space (rev (dropWhile is_space s)))"

text \<open>\<open>s.slice(0, n)\<close> for \<open>n \<ge> 0\<close>: the first \<open>n\<close> code units.\<close>

definition slice0 :: "nat \<Rightarrow> jsstring \<Rightarrow> jsstring" where
  "slice0 n s = take n s"

text \<open>\<open>xs.slice(-n)\<close> on an array: its last \<open>n\<close> elements, all of them when it is shorter.\<close>

definition slice_last :: "nat \<Rightarrow> 'a list \<Rightarrow> 'a list" where
  "slice_last n xs = drop (length xs - n) xs"

text \<open>
  \<open>s.split(sep)\<close> with a string separator: the pieces between the occurrences of
  \<open>sep\<close>, found from left to right without overlap. An empty separator splits into single
  code units.
\<close>

fun cons_first :: "'a \<Rightarrow> 'a list list \<Rightarrow> 'a list list" where
  "cons_first c [] = [[c]]"
| "cons_first c (p # ps) = (c # p) # ps"

function js_split :: "'a list \<Rightarrow> 'a list \<Rightarrow> 'a list list" where
  "js_split sep [] = (if sep = [] then [] else [[]])"
| "js_split sep (c # cs) =
     (if sep = [] then map (\<lambda>x. [x]) (c # cs)
      else if prefix sep (c # cs) then [] # js_split sep (drop (length sep) (c # cs))
      else cons_first c (js_split sep cs))"
  by pat_completeness auto
termination
  by (relation "measure (\<lambda>(sep, s). length s)") auto

text \<open>\<open>xs.join(sep)\<close>.\<close>

fun js_join :: "'a list \<Rightarrow> 'a list list \<Rightarrow> 'a list" where
  "js_join sep [] = []"
| "js_join sep [p] = p"
| "js_join sep (p # q # ps) = p @ sep @ js_join sep (q # ps)"

abbreviation LF :: "16 word" where
  "LF \<equiv> 0x0A"

text \<open>\<open>line.replace(/^data:\s?/, "")\<close>: the prefix and at most one white-space unit go.\<close>

definition strip_data :: "jsstring \<Rightarrow> jsstring" where
  "strip_data line =
     (if prefix (js ''data:'') line
      then (case drop 5 line of
              [] \<Rightarrow> []
            | c # r \<Rightarrow> if is_space c then r else c # r)
      else line)"

text \<open>\<open>h.replace(/^[Bb]earer\s+/, "")\<close>: the scheme and all the white space after it.\<close>

definition strip_bearer :: "jsstring \<Rightarrow> jsstring" where
  "strip_bearer h =
     (if (prefix (js ''Bearer'') h \<or> prefix (js ''bearer'') h)
         \<and> (case drop 6 h of [] \<Rightarrow> False | c # r \<Rightarrow> is_space c)
      then dropWhile is_space (drop 6 h)
      else h)"

section \<open>JSON values as JavaScript sees them\<close>

text \<open>
  The value \<open>JSON.parse\<close> returns. A number carries its rendering \<open>String(n)\<close>, which is
  \<open>0\<close> exactly for the two zeros; an object carries its own properties. \<open>undefined\<close> is
  \<open>None\<close> of \<open>json option\<close>. \<open>JSON.parse\<close> itself belongs to the platform: the functions
  below take it as \<open>parse\<close>, with \<open>None\<close> for a thrown SyntaxError.
\<close>

datatype json =
    JNull
  | JBool bool
  | JNum jsstring
  | JStr jsstring
  | JArr "json list"
  | JObj "(jsstring \<times> json) list"

type_synonym parser = "jsstring \<Rightarrow> json option"

fun truthy :: "json option \<Rightarrow> bool" where
  "truthy None = False"
| "truthy (Some JNull) = False"
| "truthy (Some (JBool b)) = b"
| "truthy (Some (JNum n)) = (n \<noteq> js ''0'')"
| "truthy (Some (JStr s)) = (s \<noteq> [])"
| "truthy (Some (JArr xs)) = True"
| "truthy (Some (JObj kvs)) = True"

text \<open>
  \<open>v.name\<close> for the names this program reads (\<open>choices\<close>, \<open>delta\<close>, \<open>content\<close>,
  \<open>message\<close>, \<open>__stored\<close>, \<open>chat_id\<close>, \<open>stream\<close>), none of which a built-in prototype
  defines, on a value that is neither \<open>null\<close> nor \<open>undefined\<close>.
\<close>

fun get_prop :: "jsstring \<Rightarrow> json \<Rightarrow> json option" where
  "get_prop k (JObj kvs) = map_of kvs k"
| "get_prop k v = None"

text \<open>\<open>v[0]\<close>: the first element of an array, the first unit of a string, the property \<open>0\<close>.\<close>

fun get_index0 :: "json \<Rightarrow> json option" where
  "get_index0 (JArr xs) = (case xs of [] \<Rightarrow> None | x # r \<Rightarrow> Some x)"
| "get_index0 (JStr s) = (case s of [] \<Rightarrow> None | c # r \<Rightarrow> Some (JStr [c]))"
| "get_index0 (JObj kvs) = map_of kvs (js ''0'')"
| "get_index0 v = None"

text \<open>Optional chaining \<open>v?.f\<close>: \<open>undefined\<close> when \<open>v\<close> is \<open>null\<close> or \<open>undefined\<close>.\<close>

fun opt_chain :: "json option \<Rightarrow> (json \<Rightarrow> json option) \<Rightarrow> json option" where
  "opt_chain None f = None"
| "opt_chain (Some JNull) f = None"
| "opt_chain (Some v) f = f v"

text \<open>
  String concatenation \<open>s += v\<close> converts \<open>v\<close> to a string. An object is converted
  through \<open>Object.prototype.toString\<close>, unless it has a property \<open>toString\<close> of its
  own: a value out of \<open>JSON.parse\<close> cannot be called, and the conversion throws a
  TypeError (\<open>None\<close>). An array joins its elements, \<open>null\<close> as the empty string, and
  throws when an element does.
\<close>

fun ToString :: "json \<Rightarrow> jsstring option" where
  "ToString JNull = Some (js ''null'')"
| "ToString (JBool b) = Some (if b then js ''true'' else js ''false'')"
| "ToString (JNum n) = Some n"
| "ToString (JStr s) = Some s"
| "ToString (JArr xs) =
     map_option (js_join (js '',''))
       (those (map (\<lambda>x. if x = JNull then Some [] else ToString x) xs))"
| "ToString (JObj kvs) =
     (if map_of kvs (js ''toString'') = None then Some (js ''[object Object]'') else None)"

text \<open>\<open>j?.choices?.[0]?.delta?.content\<close> and \<open>json?.choices?.[0]?.message?.content\<close>.\<close>

definition choice0 :: "json option \<Rightarrow> json option" where
  "choice0 j = opt_chain (opt_chain j (get_prop (js ''choices''))) get_index0"

definition delta_content :: "json option \<Rightarrow> json option" where
  "delta_content j =
     opt_chain (opt_chain (choice0 j) (get_prop (js ''delta''))) (get_prop (js ''content''))"

definition message_content :: "json option \<Rightarrow> json option" where
  "message_content j =
     opt_chain (opt_chain (choice0 j) (get_prop (js ''message''))) (get_prop (js ''content''))"

section \<open>TextDecoder\<close>

text \<open>
  The platform's UTF-8 decoder, as the Encoding Standard defines it: a state machine fed
  one byte at a time that emits code points, \<open>U+FFFD\<close> for every malformed sequence. A
  byte that breaks a sequence in progress is looked at again as the start of the next one.
\<close>

record utf8_decoder =
  code_point :: nat
  bytes_seen :: nat
  bytes_needed :: nat
  lower_boundary :: nat
  upper_boundary :: nat

definition utf8_init :: utf8_decoder where
  "utf8_init = \<lparr>code_point = 0, bytes_seen = 0, bytes_needed = 0,
     lower_boundary = 0x80, upper_boundary = 0xBF\<rparr>"

definition utf8_lead :: "utf8_decoder \<Rightarrow> nat \<Rightarrow> utf8_decoder \<times> nat list" where
  "utf8_lead d b =
     (if b \<le> 0x7F then (d, [b])
      else if 0xC2 \<le> b \<and> b \<le> 0xDF
        then (d\<lparr>bytes_needed := 1, code_point := b mod 0x20\<rparr>, [])
      else if 0xE0 \<le> b \<and> b \<le> 0xEF
        then (d\<lparr>lower_boundary := (if b = 0xE0 then 0xA0 else lower_boundary d),
                upper_boundary := (if b = 0xED then 0x9F else upper_boundary d),
                bytes_needed := 2, code_point := b mod 0x10\<rparr>, [])
      else if 0xF0 \<le> b \<and> b \<le> 0xF4
        then (d\<lparr>lower_boundary := (if b = 0xF0 then 0x90 else lower_boundary d),
                upper_boundary := (if b = 0xF4 then 0x8F else upper_boundary d),
                bytes_needed := 3, code_point := b mod 0x08\<rparr>, [])
      else (d, [0xFFFD]))"

definition utf8_handler :: "utf8_decoder \<Rightarrow> nat \<Rightarrow> utf8_decoder \<times> nat list" where
  "utf8_handler d b =
     (if bytes_needed d = 0 then utf8_lead d b
      else if b < lower_boundary d \<or> upper_boundary d < b
        then (case utf8_lead utf8_init b of (d', out) \<Rightarrow> (d', 0xFFFD # out))
      else
        (let cp = code_point d * 0x40 + b mod 0x40; seen = bytes_seen d + 1
         in if seen \<noteq> bytes_needed d
            then (d\<lparr>lower_boundary := 0x80, upper_boundary := 0xBF,
                    code_point := cp, bytes_seen := seen\<rparr>, [])
            else (utf8_init, [cp])))"

text \<open>A code point as UTF-16 code units.\<close>

definition utf16 :: "nat \<Rightarrow> jsstring" where
  "utf16 cp =
     (if cp < 0x10000 then [of_nat cp]
      else [of_nat (0xD800 + (cp - 0x10000) div 0x400),
            of_nat (0xDC00 + (cp - 0x10000) mod 0x400)])"

text \<open>
  A \<open>TextDecoder\<close> object holds the state machine and whether it has produced its first code
  point: a byte order mark in first position is dropped (\<open>ignoreBOM\<close> is false by default).
\<close>

record text_decoder =
  machine :: utf8_decoder
  bom_seen :: bool

definition new_TextDecoder :: text_decoder where
  "new_TextDecoder = \<lparr>machine = utf8_init, bom_seen = False\<rparr>"

fun emit :: "bool \<Rightarrow> nat list \<Rightarrow> bool \<times> jsstring" where
  "emit seen [] = (seen, [])"
| "emit seen (cp # cps) =
     (if \<not> seen \<and> cp = 0xFEFF then emit True cps
      else (case emit True cps of (seen', out) \<Rightarrow> (seen', utf16 cp @ out)))"

definition feed :: "text_decoder \<Rightarrow> byte \<Rightarrow> text_decoder \<times> jsstring" where
  "feed t b =
     (case utf8_handler (machine t) (unat b) of (d, cps) \<Rightarrow>
        (case emit (bom_seen t) cps of (seen, out) \<Rightarrow>
           (\<lparr>machine = d, bom_seen = seen\<rparr>, out)))"

text \<open>\<open>dec.decode(value, { stream: true })\<close>: the decoder keeps its state for the next call.\<close>

fun decode_stream :: "text_decoder \<Rightarrow> byte list \<Rightarrow> text_decoder \<times> jsstring" where
  "decode_stream t [] = (t, [])"
| "decode_stream t (b # bs) =
     (case feed t b of (t', out) \<Rightarrow>
        (case decode_stream t' bs of (t'', out') \<Rightarrow> (t'', out @ out')))"

text \<open>
  \<open>new TextDecoder().decode(value)\<close>: a fresh decoder, and the end of the input closes a
  sequence in progress with \<open>U+FFFD\<close>.
\<close>

definition decode :: "byte list \<Rightarrow> jsstring" where
  "decode bs =
     (case decode_stream new_TextDecoder bs of (t, out) \<Rightarrow>
        if bytes_needed (machine t) \<noteq> 0
        then out @ snd (emit (bom_seen t) [0xFFFD])
        else out)"

section \<open>The capture loop\<close>

text \<open>
  Relay and consumer run the same loop over the frames a chunk completes:
  \<^verbatim>\<open>
  buffer += chunk;
  const events = buffer.split("\n\n");
  buffer = events.pop() || "";
  for (const evt of events) {
    const line = evt.split("\n").find((l) => l.startsWith("data:"));
    if (!line) continue;
    const payload = line.replace(/^data:\s?/, "");
    if (payload === "[DONE]") continue;
    try {
      const j = JSON.parse(payload);
      const delta = j?.choices?.[0]?.delta?.content || "";
      if (delta) assistant += delta;
    } catch {}
  }
  \<close>
\<close>

definition data_line :: "jsstring \<Rightarrow> jsstring option" where
  "data_line evt = find (prefix (js ''data:'')) (js_split [LF] evt)"

text \<open>
  The payload the loop hands to \<open>JSON.parse\<close>: none for a frame without a \<open>data:\<close> line
  (\<open>!line\<close> also holds for an empty line, which no line that starts with \<open>data:\<close> is).
\<close>

definition payload_of :: "jsstring \<Rightarrow> jsstring option" where
  "payload_of evt = map_option strip_data (data_line evt)"

definition capture_event :: "parser \<Rightarrow> jsstring \<Rightarrow> jsstring \<Rightarrow> jsstring" where
  "capture_event parse assistant evt =
     (case payload_of evt of
        None \<Rightarrow> assistant
      | Some payload \<Rightarrow>
          if payload = js ''[DONE]'' then assistant
          else (case parse payload of
                  None \<Rightarrow> assistant
                | Some j \<Rightarrow>
                    (case delta_content (Some j) of
                       None \<Rightarrow> assistant
                     | Some delta \<Rightarrow>
                         if truthy (Some delta)
                         then (case ToString delta of
                                 None \<Rightarrow> assistant
                               | Some d \<Rightarrow> assistant @ d)
                         else assistant)))"

text \<open>\<open>events = buffer.split("\n\n"); buffer = events.pop() || ""\<close>.\<close>

definition pop_events :: "jsstring \<Rightarrow> jsstring list \<times> jsstring" where
  "pop_events buffer =
     (let events = js_split [LF, LF] buffer
      in if events = [] then ([], []) else (butlast events, last events))"

definition capture_chunk :: "parser \<Rightarrow> jsstring \<times> jsstring \<Rightarrow> jsstring \<Rightarrow> jsstring \<times> jsstring" where
  "capture_chunk parse st chunk =
     (case st of (buffer, assistant) \<Rightarrow>
        (case pop_events (buffer @ chunk) of (events, buffer') \<Rightarrow>
           (buffer', foldl (capture_event parse) assistant events)))"

section \<open>The D1 store\<close>

datatype role = System | User | Assistant

record message =
  role :: role
  content :: jsstring
  created_at :: int

record chat =
  id :: jsstring
  title :: "jsstring option"
  created :: int

text \<open>The two tables; a row of \<open>messages\<close> is the chat it belongs to and the message.\<close>

record store =
  chats :: "chat list"
  messages :: "(jsstring \<times> message) list"

text \<open>
  What a run leaves behind, in order: the writes to the store, the call to the upstream
  API, and what the relay does to the controller of its output stream.
\<close>

record forwarded =
  fwd_role :: role
  fwd_content :: jsstring
  fwd_created_at :: "int option"

record upstream_request =
  model :: jsstring
  sent_messages :: "forwarded list"
  sent_stream :: bool
  bearer :: jsstring

datatype event =
    Insert jsstring role jsstring
  | SetTitle jsstring jsstring
  | Fetch upstream_request
  | Enqueue "byte list"
  | Close

record world =
  db :: store
  clock_reads :: nat
  log :: "event list"

text \<open>
  The body of the upstream response is read chunk by chunk; after the last chunk a read
  either reports \<open>done\<close> or rejects.
\<close>

datatype ending = Done | Failed

record upstream_body =
  chunks :: "byte list list"
  ending :: ending

record ds_response =
  ds_status :: nat
  ds_content_type :: "jsstring option"
  ds_body :: "upstream_body option"

text \<open>
  What the platform supplies: \<open>JSON.parse\<close>, the successive readings of \<open>Date.now()\<close>,
  what the D1 binding stores for a JavaScript value that is not a string (\<open>None\<close> when it
  rejects the value), and the upstream API (\<open>None\<close> when \<open>fetch\<close> rejects).
\<close>

record platform =
  JSON_parse :: parser
  Date_now :: "nat \<Rightarrow> int"
  D1_bind :: "json \<Rightarrow> jsstring option"
  fetch :: "upstream_request \<Rightarrow> ds_response option"

definition bind_text :: "platform \<Rightarrow> json \<Rightarrow> jsstring option" where
  "bind_text P v = (case v of JStr s \<Rightarrow> Some s | _ \<Rightarrow> D1_bind P v)"

definition chatExists :: "store \<Rightarrow> jsstring \<Rightarrow> bool" where
  "chatExists d chatId = (find (\<lambda>c. id c = chatId) (chats d) \<noteq> None)"

text \<open>\<open>SELECT role, content, created_at FROM messages WHERE chat_id = ?1
  ORDER BY created_at ASC LIMIT ?2\<close>, rows of equal time in insertion order.\<close>

definition getMessages :: "store \<Rightarrow> jsstring \<Rightarrow> nat \<Rightarrow> message list" where
  "getMessages d chatId limit =
     take limit (sort_key created_at (map snd (filter (\<lambda>r. fst r = chatId) (messages d))))"

definition insertMessage :: "platform \<Rightarrow> jsstring \<Rightarrow> role \<Rightarrow> jsstring \<Rightarrow> world \<Rightarrow> world" where
  "insertMessage P chatId r text w =
     (let now = Date_now P (clock_reads w);
          row = (chatId, \<lparr>role = r, content = text, created_at = now\<rparr>)
      in w\<lparr>db := (db w)\<lparr>messages := messages (db w) @ [row]\<rparr>,
            clock_reads := Suc (clock_reads w),
            log := log w @ [Insert chatId r text]\<rparr>)"

definition NULLIF :: "jsstring option \<Rightarrow> jsstring \<Rightarrow> jsstring option" where
  "NULLIF a b = (if a = Some b then None else a)"

definition COALESCE :: "jsstring option \<Rightarrow> jsstring \<Rightarrow> jsstring option" where
  "COALESCE a b = (case a of None \<Rightarrow> Some b | Some x \<Rightarrow> Some x)"

text \<open>\<open>UPDATE chats SET title = COALESCE(NULLIF(title,''), ?2)
  WHERE id = ?1 AND (title IS NULL OR title = '')\<close>.\<close>

definition updateChatTitleIfEmpty :: "jsstring \<Rightarrow> jsstring \<Rightarrow> world \<Rightarrow> world" where
  "updateChatTitleIfEmpty chatId fromText w =
     (let t = slice0 48 (trim fromText);
          upd = (\<lambda>c. if id c = chatId \<and> (title c = None \<or> title c = Some [])
                      then c\<lparr>title := COALESCE (NULLIF (title c) []) t\<rparr> else c)
      in w\<lparr>db := (db w)\<lparr>chats := map upd (chats (db w))\<rparr>,
            log := log w @ [SetTitle chatId t]\<rparr>)"

section \<open>The relay: routeChat\<close>

definition SYS_PROMPT :: jsstring where
  "SYS_PROMPT = js ''You are a helpful, friendly assistant. Keep answers concise and accurate.''"

definition DS_MODEL :: jsstring where
  "DS_MODEL = js ''deepseek-reasoner''"

record request =
  json_body :: "json option"
  authorization :: "jsstring option"

record env =
  DEEPSEEK_API_KEY :: "jsstring option"

datatype body = ErrorMessage jsstring | Raw jsstring | StreamOut

datatype outcome = Response nat body | Threw

definition badJSON :: "nat \<Rightarrow> string \<Rightarrow> outcome" where
  "badJSON st msg = Response st (ErrorMessage (js msg))"

text \<open>The state the \<open>pull\<close> handler of \<open>streamOut\<close> closes over.\<close>

record stream =
  pending :: "byte list list"
  at_end :: ending
  buffer :: jsstring
  assistant :: jsstring
  chat_id :: jsstring

text \<open>\<open>(body?.content ?? "").trim()\<close>: a value with no \<open>trim\<close> method makes the call throw.\<close>

definition content_of :: "json \<Rightarrow> jsstring option" where
  "content_of body =
     (case opt_chain (Some body) (get_prop (js ''content'')) of
        None \<Rightarrow> Some []
      | Some JNull \<Rightarrow> Some []
      | Some (JStr s) \<Rightarrow> Some (trim s)
      | Some v \<Rightarrow> None)"

text \<open>\<open>body?.stream !== false\<close>.\<close>

definition stream_of :: "json \<Rightarrow> bool" where
  "stream_of body = (opt_chain (Some body) (get_prop (js ''stream'')) \<noteq> Some (JBool False))"

text \<open>
  \<open>(request.headers.get("authorization") || request.headers.get("Authorization"))
    ?.replace(/^[Bb]earer\s+/, "") || env.DEEPSEEK_API_KEY\<close>, \<open>None\<close> when the result is falsy.
  Header names are case-insensitive: both lookups read the same header.
\<close>

definition apiKey_of :: "env \<Rightarrow> request \<Rightarrow> jsstring option" where
  "apiKey_of e req =
     (let configured = (case DEEPSEEK_API_KEY e of
                          None \<Rightarrow> None
                        | Some k \<Rightarrow> if k = [] then None else Some k)
      in case map_option strip_bearer (authorization req) of
           None \<Rightarrow> configured
         | Some t \<Rightarrow> if t = [] then configured else Some t)"

text \<open>
  \<open>[{ role: "system", content: SYS_PROMPT }, ...last30]\<close> with
  \<open>last30 = history.slice(-30)\<close>; a history row is sent with its three columns.
\<close>

definition system_message :: forwarded where
  "system_message = \<lparr>fwd_role = System, fwd_content = SYS_PROMPT, fwd_created_at = None\<rparr>"

definition as_sent :: "message \<Rightarrow> forwarded" where
  "as_sent m = \<lparr>fwd_role = role m, fwd_content = content m,
     fwd_created_at = Some (created_at m)\<rparr>"

definition finalMessages_of :: "message list \<Rightarrow> forwarded list" where
  "finalMessages_of history = system_message # map as_sent (slice_last 30 history)"

text \<open>\<open>dsRes.text()\<close>: the whole body decoded at once; it rejects when a read does.\<close>

definition text_of :: "ds_response \<Rightarrow> jsstring option" where
  "text_of r =
     (case ds_body r of
        None \<Rightarrow> Some []
      | Some b \<Rightarrow> (case ending b of
                     Failed \<Rightarrow> None
                   | Done \<Rightarrow> Some (decode (concat (chunks b)))))"

definition ds_ok :: "ds_response \<Rightarrow> bool" where
  "ds_ok r = (200 \<le> ds_status r \<and> ds_status r \<le> 299)"

text \<open>
  The block \<open>try { const json = JSON.parse(text); const msg = ...; if (msg) await
  insertMessage(env, chatId, "assistant", msg); } catch {}\<close> of the non-streaming path.
  \<open>insertMessage\<close> reads the clock before it binds.
\<close>

definition store_reply :: "platform \<Rightarrow> jsstring \<Rightarrow> jsstring \<Rightarrow> world \<Rightarrow> world" where
  "store_reply P chatId text w =
     (case JSON_parse P text of
        None \<Rightarrow> w
      | Some j \<Rightarrow>
          (case message_content (Some j) of
             None \<Rightarrow> w
           | Some msg \<Rightarrow>
               if \<not> truthy (Some msg) then w
               else (case bind_text P msg of
                       None \<Rightarrow> w\<lparr>clock_reads := Suc (clock_reads w)\<rparr>
                     | Some s \<Rightarrow> insertMessage P chatId Assistant s w)))"

text \<open>
  \<open>routeChat\<close> is written in parts: \<open>routeChat\<close> itself holds the guards, \<open>forward\<close> its
  body from \<open>// Save user message\<close> to the call of the upstream API, \<open>reply_whole\<close> the
  block \<open>if (!stream) { ... }\<close> and \<open>reply_stream\<close> what follows that block.
  \<open>new Response(text, { status })\<close> throws for a status outside 200 to 599 and, the body
  being a string, for the statuses 204, 205 and 304 that admit no body.
\<close>

definition new_Response :: "nat \<Rightarrow> body \<Rightarrow> outcome" where
  "new_Response st b =
     (if st < 200 \<or> 599 < st \<or> st = 204 \<or> st = 205 \<or> st = 304 then Threw
      else Response st b)"

definition reply_whole ::
  "platform \<Rightarrow> jsstring \<Rightarrow> ds_response \<Rightarrow> world \<Rightarrow> outcome \<times> world \<times> stream option" where
  "reply_whole P chatId dsRes w =
     (case text_of dsRes of
        None \<Rightarrow> (Threw, w, None)
      | Some text \<Rightarrow>
          (new_Response (ds_status dsRes) (Raw text), store_reply P chatId text w, None))"

definition reply_stream ::
  "jsstring \<Rightarrow> ds_response \<Rightarrow> world \<Rightarrow> outcome \<times> world \<times> stream option" where
  "reply_stream chatId dsRes w =
     (if \<not> ds_ok dsRes \<and> ds_body dsRes \<noteq> None then
        (case text_of dsRes of
           None \<Rightarrow> (Threw, w, None)
         | Some text \<Rightarrow> (new_Response (ds_status dsRes) (Raw text), w, None))
      else
        (case ds_body dsRes of
           None \<Rightarrow> (Threw, w, None)
         | Some b \<Rightarrow>
             (Response 200 StreamOut, w,
              Some \<lparr>pending = chunks b, at_end = ending b, buffer = [],
                    assistant = [], chat_id = chatId\<rparr>)))"

definition forward ::
  "platform \<Rightarrow> env \<Rightarrow> request \<Rightarrow> jsstring \<Rightarrow> jsstring \<Rightarrow> bool \<Rightarrow> world
     \<Rightarrow> outcome \<times> world \<times> stream option" where
  "forward P e req chatId content' stream w =
     (let w1 = insertMessage P chatId User content' w;
          w2 = updateChatTitleIfEmpty chatId content' w1;
          history = getMessages (db w2) chatId 1000;
          finalMessages = finalMessages_of history
      in case apiKey_of e req of
           None \<Rightarrow> (badJSON 401 ''Missing DEEPSEEK_API_KEY'', w2, None)
         | Some apiKey \<Rightarrow>
             (let payload = \<lparr>model = DS_MODEL, sent_messages = finalMessages,
                             sent_stream = stream, bearer = apiKey\<rparr>;
                  w3 = w2\<lparr>log := log w2 @ [Fetch payload]\<rparr>
              in case fetch P payload of
                   None \<Rightarrow> (Threw, w3, None)
                 | Some dsRes \<Rightarrow>
                     if \<not> stream then reply_whole P chatId dsRes w3
                     else reply_stream chatId dsRes w3))"

definition routeChat ::
  "platform \<Rightarrow> env \<Rightarrow> request \<Rightarrow> world \<Rightarrow> outcome \<times> world \<times> stream option" where
  "routeChat P e req w =
     (case json_body req of
        None \<Rightarrow> (badJSON 400 ''Invalid JSON body'', w, None)
      | Some body \<Rightarrow>
          (case content_of body of
             None \<Rightarrow> (Threw, w, None)
           | Some content' \<Rightarrow>
               (let chatId = opt_chain (Some body) (get_prop (js ''chat_id''));
                    stream = stream_of body
                in if \<not> truthy chatId then (badJSON 400 ''chat_id is required'', w, None)
                   else if content' = [] then (badJSON 400 ''content is required'', w, None)
                   else (case Option.bind chatId (bind_text P) of
                           None \<Rightarrow> (Threw, w, None)
                         | Some cid \<Rightarrow>
                             if \<not> chatExists (db w) cid
                             then (badJSON 404 ''Chat not found'', w, None)
                             else forward P e req cid content' stream w))))"

subsection \<open>streamOut\<close>

text \<open>The frame the relay adds: \<open>encoder.encode(`data: {"__stored": true}\n\n`)\<close>.\<close>

definition stored_frame :: "byte list" where
  "stored_frame = octets ''data: {\"__stored\": true}'' @ [0x0A, 0x0A]"

text \<open>
  One call of \<open>pull(controller)\<close>. \<open>reader.read()\<close> hands out the next chunk, reports
  \<open>done\<close> after the last one, or rejects; a rejection leaves \<open>pull\<close> at once and puts the
  output stream in its errored state.
\<close>

datatype pulled = More | Closed | Errored

definition pull :: "platform \<Rightarrow> stream \<Rightarrow> world \<Rightarrow> pulled \<times> stream \<times> world" where
  "pull P s w =
     (case pending s of
        [] \<Rightarrow>
          (case at_end s of
             Failed \<Rightarrow> (Errored, s, w)
           | Done \<Rightarrow>
               (let w1 = (if trim (assistant s) \<noteq> []
                          then insertMessage P (chat_id s) Assistant (assistant s) w
                          else w);
                    w2 = w1\<lparr>log := log w1 @ [Enqueue stored_frame]\<rparr>;
                    w3 = w2\<lparr>log := log w2 @ [Close]\<rparr>
                in (Closed, s, w3)))
      | val # rest \<Rightarrow>
          (let w1 = w\<lparr>log := log w @ [Enqueue val]\<rparr>;
               chunk = decode val
           in case capture_chunk (JSON_parse P) (buffer s, assistant s) chunk of
                (buffer', assistant') \<Rightarrow>
                  (More, s\<lparr>pending := rest, buffer := buffer', assistant := assistant'\<rparr>,
                   w1)))"

text \<open>
  The runtime calls \<open>pull\<close> whenever the caller wants more, and no more once the stream is
  closed or errored. \<open>pulls P n\<close> is a run in which the caller asks \<open>n\<close> times.
\<close>

fun pulls :: "platform \<Rightarrow> nat \<Rightarrow> stream \<Rightarrow> world \<Rightarrow> pulled \<times> stream \<times> world" where
  "pulls P 0 s w = (More, s, w)"
| "pulls P (Suc n) s w =
     (case pull P s w of
        (More, s', w') \<Rightarrow> pulls P n s' w'
      | r \<Rightarrow> r)"

text \<open>The chunks enqueued on the output stream, in order.\<close>

fun enqueued :: "event list \<Rightarrow> byte list list" where
  "enqueued [] = []"
| "enqueued (Enqueue c # es) = c # enqueued es"
| "enqueued (e # es) = enqueued es"

section \<open>The consumer: onSend\<close>

text \<open>
  The read loop of the browser side, in the revision that knows the relay's frame:
  \<^verbatim>\<open>
  buffer += dec.decode(value, { stream: true });
  ...
      const j = JSON.parse(payload);
      if (j && j.__stored) { stored = true; continue; }
      const delta = j?.choices?.[0]?.delta?.content || "";
      if (delta) { full += delta; appendText(assistantNode, delta); }
  \<close>
  \<open>shown\<close> is the text content of the assistant bubble.
\<close>

record consumer =
  dec :: text_decoder
  inbuf :: jsstring
  full :: jsstring
  shown :: jsstring
  stored :: bool

definition consumer_init :: consumer where
  "consumer_init = \<lparr>dec = new_TextDecoder, inbuf = [], full = [], shown = [], stored = False\<rparr>"

definition render_event :: "parser \<Rightarrow> consumer \<Rightarrow> jsstring \<Rightarrow> consumer" where
  "render_event parse c evt =
     (case payload_of evt of
        None \<Rightarrow> c
      | Some payload \<Rightarrow>
          if payload = js ''[DONE]'' then c
          else (case parse payload of
                  None \<Rightarrow> c
                | Some j \<Rightarrow>
                    if truthy (Some j) \<and> truthy (get_prop (js ''__stored'') j)
                    then c\<lparr>stored := True\<rparr>
                    else (case delta_content (Some j) of
                            None \<Rightarrow> c
                          | Some delta \<Rightarrow>
                              if truthy (Some delta)
                              then (case ToString delta of
                                      None \<Rightarrow> c
                                    | Some d \<Rightarrow> c\<lparr>full := full c @ d,
                                                    shown := shown c @ d\<rparr>)
                              else c)))"

definition on_chunk :: "parser \<Rightarrow> consumer \<Rightarrow> byte list \<Rightarrow> consumer" where
  "on_chunk parse c val =
     (case decode_stream (dec c) val of (d, chunk) \<Rightarrow>
        (case pop_events (inbuf c @ chunk) of (events, buffer') \<Rightarrow>
           foldl (render_event parse) (c\<lparr>dec := d, inbuf := buffer'\<rparr>) events))"

text \<open>
  What \<open>onSend\<close> does once the stream is open and the loop is over:
  \<^verbatim>\<open>
  if (stored) { await loadChat(chatId); }
  else { setTimeout(() => loadChat(chatId).catch(()=>{}), 300); }
  await refreshChats();
  \<close>
  A reload fetches the conversation and renders it in place of the bubbles. A rejected
  read leaves the loop through \<open>catch\<close>, which appends the error marker to the bubble.
\<close>

datatype failure = Propagates | Swallowed

datatype action =
    LoadChat nat failure
  | RefreshChats
  | NetworkError



subsection \<open>The revision in public/chat.js\<close>

text \<open>
  The read loop of \<open>public/chat.js\<close> is the loop of the relay word for word, with \<open>full\<close>
  for \<open>assistant\<close> and \<open>appendText\<close> after it, and with the one decoder of the consumer;
  it knows no \<open>stored\<close>. After the loop comes \<open>await loadChat(chatId)\<close> and nothing else; a
  rejected read leaves through the same \<open>catch\<close>.
\<close>

definition on_chunk_public ::
  "parser \<Rightarrow> text_decoder \<times> jsstring \<times> jsstring \<Rightarrow> byte list
     \<Rightarrow> text_decoder \<times> jsstring \<times> jsstring" where
  "on_chunk_public parse st val =
     (case st of (d, acc) \<Rightarrow>
        (case decode_stream d val of (d', chunk) \<Rightarrow> (d', capture_chunk parse acc chunk)))"

definition read_loop_public :: "parser \<Rightarrow> upstream_body \<Rightarrow> jsstring \<times> action list" where
  "read_loop_public parse b =
     (case foldl (on_chunk_public parse) (new_TextDecoder, [], []) (chunks b) of
        (d, rest, text) \<Rightarrow>
          (text, case ending b of
                   Done \<Rightarrow> [LoadChat 0 Propagates]
                 | Failed \<Rightarrow> [NetworkError]))"

section \<open>A parser for the worked examples\<close>

text \<open>
  \<open>sample_parse\<close> accepts the two payload shapes of the protocol,
  \<open>{"choices":[{"delta":{"content":"..."}}]}\<close> with a text free of quotes, backslashes
  and control characters, and \<open>{"__stored": true}\<close>; there it returns what \<open>JSON.parse\<close>
  returns. It rejects everything else, and serves the examples only.
\<close>

definition delta_head :: jsstring where
  "delta_head = js ''{\"choices\":[{\"delta\":{\"content\":\"''"

definition delta_tail :: jsstring where
  "delta_tail = js ''\"}}]}''"

definition delta_json :: "jsstring \<Rightarrow> json" where
  "delta_json d =
     JObj [(js ''choices'', JArr [JObj [(js ''delta'', JObj [(js ''content'', JStr d)])]])]"

definition plain_unit :: "16 word \<Rightarrow> bool" where
  "plain_unit c = (0x20 \<le> c \<and> c \<noteq> 0x22 \<and> c \<noteq> 0x5C)"

definition sample_parse :: parser where
  "sample_parse s =
     (if s = js ''{\"__stored\": true}'' then Some (JObj [(js ''__stored'', JBool True)])
      else if prefix delta_head s \<and> suffix delta_tail (drop (length delta_head) s)
              \<and> list_all plain_unit
                   (take (length s - length delta_head - length delta_tail)
                      (drop (length delta_head) s))
        then Some (delta_json
                     (take (length s - length delta_head - length delta_tail)
                        (drop (length delta_head) s)))
      else None)"

definition sample_platform :: platform where
  "sample_platform =
     \<lparr>JSON_parse = sample_parse, Date_now = (\<lambda>n. 1700000000000 + int n),
      D1_bind = (\<lambda>v. None), fetch = (\<lambda>r. None)\<rparr>"

section \<open>Notions the statements use\<close>

text \<open>
  A chat-send request is accepted when it passes the guards at the top of \<open>routeChat\<close>:
  the body is JSON, \<open>content\<close> is a string that is not empty once trimmed, \<open>chat_id\<close>
  is truthy and names a chat of the store. \<open>validated\<close> returns the chat, the trimmed text
  and the streaming flag of an accepted request.
\<close>

definition validated ::
  "platform \<Rightarrow> request \<Rightarrow> world \<Rightarrow> (jsstring \<times> jsstring \<times> bool) option" where
  "validated P req w =
     (case json_body req of
        None \<Rightarrow> None
      | Some body \<Rightarrow>
          (case content_of body of
             None \<Rightarrow> None
           | Some text \<Rightarrow>
               (let chatId = opt_chain (Some body) (get_prop (js ''chat_id''))
                in if truthy chatId \<and> text \<noteq> []
                   then (case Option.bind chatId (bind_text P) of
                           None \<Rightarrow> None
                         | Some cid \<Rightarrow>
                             if chatExists (db w) cid
                             then Some (cid, text, stream_of body) else None)
                   else None)))"

text \<open>The inserts of one role in a log, as pairs of chat and text.\<close>

fun inserts_of :: "role \<Rightarrow> event list \<Rightarrow> (jsstring \<times> jsstring) list" where
  "inserts_of r [] = []"
| "inserts_of r (Insert c r' t # es) =
     (if r' = r then (c, t) # inserts_of r es else inserts_of r es)"
| "inserts_of r (e # es) = inserts_of r es"

fun fetches :: "event list \<Rightarrow> upstream_request list" where
  "fetches [] = []"
| "fetches (Fetch p # es) = p # fetches es"
| "fetches (e # es) = fetches es"

text \<open>All the stored messages of a chat, oldest first.\<close>

definition stored_history :: "store \<Rightarrow> jsstring \<Rightarrow> message list" where
  "stored_history d cid =
     sort_key created_at (map snd (filter (\<lambda>r. fst r = cid) (messages d)))"

text \<open>
  The frames a text completes, what it leaves for the next chunk, and a frame of one line
  \<open>data: payload\<close>.
\<close>

definition frames :: "jsstring \<Rightarrow> jsstring list" where
  "frames t = butlast (js_split [LF, LF] t)"

definition carry :: "jsstring \<Rightarrow> jsstring" where
  "carry t = last (js_split [LF, LF] t)"

definition data_frame :: "jsstring \<Rightarrow> jsstring" where
  "data_frame payload = js ''data: '' @ payload @ [LF, LF]"


text \<open>
  A payload carries the delta \<open>d\<close> when it parses to an object whose
  \<open>choices[0].delta.content\<close> is the string \<open>d\<close> and which is not the relay's signal.
\<close>

definition delta_payload :: "parser \<Rightarrow> jsstring \<Rightarrow> jsstring \<Rightarrow> bool" where
  "delta_payload parse p d =
     (p \<noteq> js ''[DONE]'' \<and>
      (case parse p of
         None \<Rightarrow> False
       | Some j \<Rightarrow> \<not> truthy (get_prop (js ''__stored'') j)
                  \<and> delta_content (Some j) = Some (JStr d)))"


text \<open>The store and the log once the user message is saved and the title looked at.\<close>

definition saved :: "platform \<Rightarrow> jsstring \<Rightarrow> jsstring \<Rightarrow> world \<Rightarrow> world" where
  "saved P cid text w = updateChatTitleIfEmpty cid text (insertMessage P cid User text w)"

fun title_updates :: "event list \<Rightarrow> (jsstring \<times> jsstring) list" where
  "title_updates [] = []"
| "title_updates (SetTitle c t # es) = (c, t) # title_updates es"
| "title_updates (e # es) = title_updates es"

fun closes :: "event list \<Rightarrow> nat" where
  "closes [] = 0"
| "closes (Close # es) = Suc (closes es)"
| "closes (e # es) = closes es"

text \<open>
  The buffer and the accumulated text of the relay after some chunks, each decoded on its
  own, and the state of the stream after its first \<open>n\<close> chunks were pulled.
\<close>

definition captured ::
  "parser \<Rightarrow> jsstring \<times> jsstring \<Rightarrow> byte list list \<Rightarrow> jsstring \<times> jsstring" where
  "captured parse st cs = foldl (\<lambda>st c. capture_chunk parse st (decode c)) st cs"

definition after_chunks :: "platform \<Rightarrow> nat \<Rightarrow> stream \<Rightarrow> stream" where
  "after_chunks P n s =
     s\<lparr>pending := drop n (pending s),
       buffer := fst (captured (JSON_parse P) (buffer s, assistant s) (take n (pending s))),
       assistant := snd (captured (JSON_parse P) (buffer s, assistant s) (take n (pending s)))\<rparr>"

section \<open>Worked examples\<close>

definition ex_world :: world where
  "ex_world =
     \<lparr>db = \<lparr>chats = [\<lparr>id = js ''c1'', title = None, created = 1\<rparr>,
                      \<lparr>id = js ''c2'', title = Some (js ''Old''), created = 2\<rparr>],
             messages = []\<rparr>,
      clock_reads = 0, log = []\<rparr>"

definition ex_body :: "string \<Rightarrow> string \<Rightarrow> json" where
  "ex_body c t = JObj [(js ''chat_id'', JStr (js c)), (js ''content'', JStr (js t))]"

definition ex_request :: "string \<Rightarrow> string \<Rightarrow> request" where
  "ex_request c t = \<lparr>json_body = Some (ex_body c t), authorization = None\<rparr>"

definition no_key :: env where
  "no_key = \<lparr>DEEPSEEK_API_KEY = None\<rparr>"

definition with_key :: env where
  "with_key = \<lparr>DEEPSEEK_API_KEY = Some (js ''sk-1'')\<rparr>"

definition hi_chunk :: "byte list" where
  "hi_chunk = octets ''data: {\"choices\":[{\"delta\":{\"content\":\"Hi\"}}]}'' @ [0x0A, 0x0A]"

definition done_chunk :: "byte list" where
  "done_chunk = octets ''data: [DONE]'' @ [0x0A, 0x0A]"

text \<open>An upstream that answers 200 with the given body, whatever it is asked.\<close>

definition answering :: "upstream_body \<Rightarrow> platform" where
  "answering b =
     sample_platform\<lparr>fetch := (\<lambda>r. Some \<lparr>ds_status = 200, ds_content_type = None,
                                            ds_body = Some b\<rparr>)\<rparr>"

text \<open>One frame whose delta is \<open>U+00E9\<close>, cut between the two bytes of that character.\<close>

definition split_1 :: "byte list" where
  "split_1 = octets ''data: {\"choices\":[{\"delta\":{\"content\":\"'' @ [0xC3]"

definition split_2 :: "byte list" where
  "split_2 = [0xA9] @ octets ''\"}}]}'' @ [0x0A, 0x0A]"

text \<open>
  A request that asks for the whole reply at once, a parser for the one shape of such a
  reply, \<open>{"choices":[{"message":{"content":"..."}}]}\<close>, and an upstream whose reply is a
  single blank.
\<close>

definition whole_request :: "string \<Rightarrow> string \<Rightarrow> request" where
  "whole_request c t =
     \<lparr>json_body = Some (JObj [(js ''chat_id'', JStr (js c)), (js ''content'', JStr (js t)),
                               (js ''stream'', JBool False)]),
      authorization = None\<rparr>"

definition message_head :: jsstring where
  "message_head = js ''{\"choices\":[{\"message\":{\"content\":\"''"

definition reply_parse :: parser where
  "reply_parse s =
     (if prefix message_head s \<and> suffix delta_tail (drop (length message_head) s)
         \<and> list_all plain_unit
              (take (length s - length message_head - length delta_tail)
                 (drop (length message_head) s))
      then Some (JObj [(js ''choices'',
             JArr [JObj [(js ''message'', JObj [(js ''content'',
               JStr (take (length s - length message_head - length delta_tail)
                       (drop (length message_head) s)))])]])])
      else None)"

definition blank_reply :: platform where
  "blank_reply =
     \<lparr>JSON_parse = reply_parse, Date_now = (\<lambda>n. 1700000000000 + int n),
      D1_bind = (\<lambda>v. None),
      fetch = (\<lambda>r. Some \<lparr>ds_status = 200, ds_content_type = None,
                 ds_body = Some \<lparr>chunks = [octets ''{\"choices\":[{\"message\":{\"content\":\" \"}}]}''],
                                 ending = Done\<rparr>\<rparr>)\<rparr>"

text \<open>A chat that already holds thirty messages.\<close>

definition long_world :: world where
  "long_world =
     ex_world\<lparr>db := (db ex_world)\<lparr>messages :=
        map (\<lambda>n. (js ''c1'', \<lparr>role = User, content = js ''m'', created_at = int n\<rparr>))
          [0..<30]\<rparr>\<rparr>"

section \<open>Evaluating the examples\<close>

lemma js_simps: "js [] = []" "js (c # cs) = of_char c # js cs"
  by (simp_all add: js_def)

lemma octets_simps: "octets [] = []" "octets (c # cs) = of_char c # octets cs"
  by (simp_all add: octets_def)

lemma pulls_numeral [simp]:
  "pulls P (numeral k) s w =
     (case pull P s w of (More, s', w') \<Rightarrow> pulls P (pred_numeral k) s' w' | r \<Rightarrow> r)"
  by (simp add: numeral_eq_Suc)

lemmas decoder_defs = decode_def new_TextDecoder_def utf8_init_def feed_def utf8_handler_def
  utf8_lead_def utf16_def octets_simps

lemmas capture_defs = capture_chunk_def pop_events_def capture_event_def payload_of_def
  data_line_def strip_data_def is_space_def delta_content_def choice0_def js_simps

lemmas sample_defs = sample_parse_def delta_head_def delta_tail_def delta_json_def
  plain_unit_def sample_platform_def suffix_def js_simps

lemmas route_defs = routeChat_def forward_def reply_whole_def reply_stream_def content_of_def
  stream_of_def bind_text_def chatExists_def apiKey_of_def badJSON_def insertMessage_def
  updateChatTitleIfEmpty_def getMessages_def finalMessages_of_def slice0_def slice_last_def
  NULLIF_def COALESCE_def trim_def is_space_def Let_def js_simps

lemmas example_defs = ex_world_def ex_body_def ex_request_def no_key_def with_key_def
  js_simps

lemma validated_example:
  "validated P (ex_request ''c1'' '' Hi '') ex_world = Some (js ''c1'', js ''Hi'', True)"
  by (simp add: validated_def example_defs content_of_def trim_def is_space_def
      bind_text_def chatExists_def stream_of_def)

section \<open>Facts about the capture loop\<close>


subsection \<open>split and join\<close>

lemma cons_first_nonempty [simp]: "cons_first c xs \<noteq> []"
  by (cases xs) simp_all

lemma js_split_nonempty: "sep \<noteq> [] \<Longrightarrow> js_split sep s \<noteq> []"
  by (cases s) simp_all

lemma js_join_cons_first: "xs \<noteq> [] \<Longrightarrow> js_join sep (cons_first c xs) = c # js_join sep xs"
  by (induction xs rule: induct_list012) simp_all

lemma js_join_Nil_Cons: "xs \<noteq> [] \<Longrightarrow> js_join sep ([] # xs) = sep @ js_join sep xs"
  by (cases xs) simp_all

lemma js_join_split: "sep \<noteq> [] \<Longrightarrow> js_join sep (js_split sep s) = s"
proof (induction sep s rule: js_split.induct)
  case (1 sep)
  then show ?case by simp
next
  case (2 sep c cs)
  show ?case
  proof (cases "prefix sep (c # cs)")
    case True
    then have "c # cs = sep @ drop (length sep) (c # cs)"
      by (metis append_eq_conv_conj prefix_def)
    moreover have "js_join sep (js_split sep (drop (length sep) (c # cs))) = drop (length sep) (c # cs)"
      using 2 True by simp
    ultimately show ?thesis
      using 2(3) True by (simp add: js_join_Nil_Cons js_split_nonempty del: drop.simps)
  next
    case False
    with 2 show ?thesis by (simp add: js_join_cons_first js_split_nonempty)
  qed
qed

lemma js_split_single: "js_split sep s = [p] \<Longrightarrow> sep \<noteq> [] \<Longrightarrow> p = s"
  using js_join_split[of sep s] by simp

lemma js_split_short: "length s < length sep \<Longrightarrow> js_split sep s = [s]"
proof (induction s)
  case Nil
  then show ?case by auto
next
  case (Cons c cs)
  then have "\<not> prefix sep (c # cs)" by (auto dest: prefix_length_le)
  moreover have "sep \<noteq> []" using Cons.prems by auto
  ultimately show ?case using Cons by simp
qed

lemma butlast_cons_first:
  "butlast (cons_first c xs) = (if length xs \<le> 1 then [] else cons_first c (butlast xs))"
  by (induction xs rule: induct_list012) simp_all

lemma last_cons_first:
  "last (cons_first c xs) = (if length xs \<le> 1 then c # concat xs else last xs)"
  by (induction xs rule: induct_list012) simp_all

lemma cons_first_append: "xs \<noteq> [] \<Longrightarrow> cons_first c (xs @ ys) = cons_first c xs @ ys"
  by (cases xs) simp_all

lemma js_split_append:
  assumes "sep \<noteq> []"
  shows "js_split sep (s @ t) =
           butlast (js_split sep s) @ js_split sep (last (js_split sep s) @ t)"
  using assms
proof (induction sep s rule: js_split.induct)
  case (1 sep)
  then show ?case by simp
next
  case (2 sep c cs)
  note sep = \<open>sep \<noteq> []\<close>
  show ?case
  proof (cases "prefix sep (c # cs)")
    case True
    then have pre: "prefix sep ((c # cs) @ t)" by (simp add: prefix_prefix del: append.simps)
    have len: "length sep \<le> length (c # cs)" using True by (rule prefix_length_le)
    have d: "drop (length sep) ((c # cs) @ t) = drop (length sep) (c # cs) @ t"
      using len by (metis drop_append diff_is_0_eq drop_0)
    have L: "js_split sep ((c # cs) @ t) = [] # js_split sep (drop (length sep) (c # cs) @ t)"
      using pre sep d by (simp del: drop.simps)
    have R: "js_split sep (c # cs) = [] # js_split sep (drop (length sep) (c # cs))"
      using True sep by (simp del: drop.simps)
    from 2(1)[OF sep True sep]
    show ?thesis unfolding L R
      by (simp add: js_split_nonempty[OF sep])
  next
    case False
    then have R: "js_split sep (c # cs) = cons_first c (js_split sep cs)"
      using sep by simp
    show ?thesis
    proof (cases "prefix sep ((c # cs) @ t)")
      case True
      have "length (c # cs) < length sep"
      proof (rule ccontr)
        assume "\<not> length (c # cs) < length sep"
        then have "length sep \<le> length (c # cs)" by simp
        with True have "prefix sep (c # cs)"
          by (metis prefix_def append_eq_append_conv_if prefixI take_all_iff prefix_length_prefix  linorder_le_cases prefix_order.dual_order.refl)
        with False show False by simp
      qed
      from js_split_short[OF this] show ?thesis by simp
    next
      case nopre: False
      then have L: "js_split sep ((c # cs) @ t) = cons_first c (js_split sep (cs @ t))"
        using sep by simp
      have IH: "js_split sep (cs @ t) =
                  butlast (js_split sep cs) @ js_split sep (last (js_split sep cs) @ t)"
        using 2(2)[OF sep False sep] .
      show ?thesis
      proof (cases "length (js_split sep cs) \<le> 1")
        case True
        then obtain p where p: "js_split sep cs = [p]"
          using js_split_nonempty[OF sep, of cs] by (cases "js_split sep cs") auto
        then have "p = cs" using sep by (rule js_split_single)
        with p have one: "js_split sep cs = [cs]" by simp
        show ?thesis unfolding R one using nopre sep by simp
      next
        case False
        then have b: "butlast (js_split sep cs) \<noteq> []"
          by (cases "js_split sep cs") (auto split: if_splits)
        show ?thesis unfolding L R IH using False
          by (simp add: butlast_cons_first last_cons_first cons_first_append[OF b])
      qed
    qed
  qed
qed


subsection \<open>frames across chunks\<close>

lemma pop_events_frames: "pop_events b = (frames b, carry b)"
  by (simp add: pop_events_def frames_def carry_def Let_def js_split_nonempty)

lemma frames_append: "frames (t @ c) = frames t @ frames (carry t @ c)"
proof -
  have "js_split [LF, LF] (t @ c) =
          butlast (js_split [LF, LF] t) @ js_split [LF, LF] (last (js_split [LF, LF] t) @ c)"
    by (rule js_split_append) simp
  then show ?thesis
    by (simp add: frames_def carry_def butlast_append js_split_nonempty)
qed

lemma carry_append: "carry (t @ c) = carry (carry t @ c)"
proof -
  have "js_split [LF, LF] (t @ c) =
          butlast (js_split [LF, LF] t) @ js_split [LF, LF] (last (js_split [LF, LF] t) @ c)"
    by (rule js_split_append) simp
  then show ?thesis
    by (simp add: carry_def js_split_nonempty)
qed

lemma frames_Nil [simp]: "frames [] = []" and carry_Nil [simp]: "carry [] = []"
  by (simp_all add: frames_def carry_def)

lemma capture_chunk_frames:
  "capture_chunk parse (carry t, foldl (capture_event parse) a (frames t)) c
     = (carry (t @ c), foldl (capture_event parse) a (frames (t @ c)))"
  by (simp add: capture_chunk_def pop_events_frames frames_append[of t c] carry_append[of t c])

lemma capture_texts:
  "foldl (capture_chunk parse) (carry t, foldl (capture_event parse) a (frames t)) texts
     = (carry (t @ concat texts), foldl (capture_event parse) a (frames (t @ concat texts)))"
proof (induction texts arbitrary: t)
  case Nil
  show ?case by simp
next
  case (Cons x texts)
  show ?case
    using Cons.IH[of "t @ x"] by (simp add: capture_chunk_frames)
qed

lemma captured_map: "captured parse st cs = foldl (capture_chunk parse) st (map decode cs)"
  by (simp add: captured_def foldl_map)

lemma captured_frames:
  "captured parse ([], a) cs =
     (carry (concat (map decode cs)),
      foldl (capture_event parse) a (frames (concat (map decode cs))))"
  using capture_texts[of parse "[]" a "map decode cs"] by (simp add: captured_map)

subsection \<open>one-line frames\<close>

lemma js_split_frame:
  "LF \<notin> set b \<Longrightarrow> js_split [LF, LF] (b @ LF # LF # t) = b # js_split [LF, LF] t"
  by (induction b) auto

lemma js_split_framed:
  "\<forall>b\<in>set bs. LF \<notin> set b \<Longrightarrow>
   js_split [LF, LF] (concat (map (\<lambda>b. b @ [LF, LF]) bs)) = bs @ [[]]"
  by (induction bs) (simp_all add: js_split_frame)

lemma frames_framed:
  "\<forall>b\<in>set bs. LF \<notin> set b \<Longrightarrow> frames (concat (map (\<lambda>b. b @ [LF, LF]) bs)) = bs"
  by (simp add: frames_def js_split_framed)

lemma carry_framed:
  "\<forall>b\<in>set bs. LF \<notin> set b \<Longrightarrow> carry (concat (map (\<lambda>b. b @ [LF, LF]) bs)) = []"
  by (simp add: carry_def js_split_framed)

lemma js_split_no_LF: "LF \<notin> set s \<Longrightarrow> js_split [LF] s = [s]"
  by (induction s) auto

lemma LF_not_in_data: "LF \<notin> set (js ''data: '')"
  by (simp add: js_simps)

lemma payload_of_data:
  "LF \<notin> set p \<Longrightarrow> payload_of (js ''data: '' @ p) = Some p"
proof -
  assume "LF \<notin> set p"
  then have "js_split [LF] (js ''data: '' @ p) = [js ''data: '' @ p]"
    using LF_not_in_data by (intro js_split_no_LF) simp
  then show ?thesis
    by (simp add: payload_of_def data_line_def strip_data_def is_space_def js_simps)
qed

lemma concat_data_frames:
  "concat (map data_frame ps) = concat (map (\<lambda>b. b @ [LF, LF]) (map (\<lambda>p. js ''data: '' @ p) ps))"
  by (induction ps) (simp_all add: data_frame_def)

lemma frames_data_frames:
  assumes "\<forall>p\<in>set ps. LF \<notin> set p"
  shows "frames (concat (map data_frame ps)) = map (\<lambda>p. js ''data: '' @ p) ps"
    and "carry (concat (map data_frame ps)) = []"
proof -
  have "\<forall>b\<in>set (map (\<lambda>p. js ''data: '' @ p) ps). LF \<notin> set b"
    using assms LF_not_in_data by auto
  then show "frames (concat (map data_frame ps)) = map (\<lambda>p. js ''data: '' @ p) ps"
    and "carry (concat (map data_frame ps)) = []"
    unfolding concat_data_frames by (rule frames_framed, rule carry_framed)
qed

subsection \<open>what the relay accumulates\<close>

lemma capture_event_delta:
  assumes "LF \<notin> set p" and "delta_payload parse p d"
  shows "capture_event parse a (js ''data: '' @ p) = a @ d"
proof -
  from assms(2) obtain j where "p \<noteq> js ''[DONE]''" "parse p = Some j"
    "delta_content (Some j) = Some (JStr d)"
    by (auto simp: delta_payload_def split: option.splits)
  then show ?thesis
    by (simp add: capture_event_def payload_of_data[OF assms(1)])
qed

lemma capture_events_deltas:
  assumes "list_all2 (delta_payload parse) ps ds" and "\<forall>p\<in>set ps. LF \<notin> set p"
  shows "foldl (capture_event parse) a (map (\<lambda>p. js ''data: '' @ p) ps) = a @ concat ds"
  using assms
proof (induction ps ds arbitrary: a rule: list_all2_induct)
  case Nil
  show ?case by simp
next
  case (Cons p ps d ds)
  then show ?case by (simp add: capture_event_delta)
qed

lemma relay_reassembles:
  assumes "concat (map decode cs) = concat (map data_frame ps)"
    and "\<forall>p\<in>set ps. LF \<notin> set p"
    and "list_all2 (delta_payload parse) ps ds"
  shows "captured parse ([], []) cs = ([], concat ds)"
  unfolding captured_frames assms(1) frames_data_frames[OF assms(2)]
  by (simp add: capture_events_deltas[OF assms(3,2)])

subsection \<open>the decoder\<close>

lemma decode_stream_append:
  "decode_stream t (a @ b) =
     (case decode_stream t a of (t1, o1) \<Rightarrow>
        (case decode_stream t1 b of (t2, o2) \<Rightarrow> (t2, o1 @ o2)))"
  by (induction a arbitrary: t) (simp_all split: prod.splits)

lemma feed_ascii:
  assumes "machine t = utf8_init" and "b < 0x80"
  shows "feed t b = (\<lparr>machine = utf8_init, bom_seen = True\<rparr>, [ucast b])"
proof -
  have u: "unat b \<le> 0x7F" using assms(2) by (simp add: word_less_nat_alt)
  then have h: "utf8_handler utf8_init (unat b) = (utf8_init, [unat b])"
    by (simp add: utf8_handler_def utf8_lead_def utf8_init_def)
  have "unat b \<noteq> 0xFEFF" using u by simp
  moreover have "unat b < 0x10000" using u by simp
  ultimately show ?thesis
    using assms(1) h by (simp add: feed_def utf16_def of_nat_unat)
qed

lemma decode_stream_ascii:
  assumes "machine t = utf8_init" and "\<forall>b\<in>set bs. b < 0x80"
  shows "snd (decode_stream t bs) = map ucast bs
       \<and> machine (fst (decode_stream t bs)) = utf8_init"
  using assms
proof (induction bs arbitrary: t)
  case Nil
  then show ?case by simp
next
  case (Cons b bs)
  from Cons.prems have f: "feed t b = (\<lparr>machine = utf8_init, bom_seen = True\<rparr>, [ucast b])"
    by (simp add: feed_ascii)
  have "machine \<lparr>machine = utf8_init, bom_seen = True\<rparr> = utf8_init" by simp
  from Cons.IH[OF this] Cons.prems f show ?case
    by (auto split: prod.splits)
qed

lemma decode_ascii:
  assumes "\<forall>b\<in>set bs. b < 0x80"
  shows "decode bs = map ucast bs"
proof -
  have m: "machine new_TextDecoder = utf8_init" by (simp add: new_TextDecoder_def)
  obtain t out where d: "decode_stream new_TextDecoder bs = (t, out)"
    by (cases "decode_stream new_TextDecoder bs")
  with decode_stream_ascii[OF m assms] have "out = map ucast bs" "machine t = utf8_init"
    by simp_all
  then show ?thesis
    by (simp add: decode_def d utf8_init_def)
qed

lemma decode_chunks_ascii:
  assumes "\<forall>c\<in>set cs. \<forall>b\<in>set c. b < 0x80"
  shows "concat (map decode cs) = decode (concat cs)"
proof -
  have "concat (map decode cs) = concat (map (map ucast) cs)"
    using assms by (induction cs) (simp_all add: decode_ascii)
  also have "\<dots> = map ucast (concat cs)" by (simp add: map_concat)
  also have "\<dots> = decode (concat cs)" using assms by (simp add: decode_ascii)
  finally show ?thesis .
qed


subsection \<open>what the consumer shows\<close>

lemma render_event_updates:
  "render_event parse (c\<lparr>dec := d, inbuf := b\<rparr>) evt
     = (render_event parse c evt)\<lparr>dec := d, inbuf := b\<rparr>"
  by (simp add: render_event_def split: option.split)

lemma render_events_updates:
  "foldl (render_event parse) (c\<lparr>dec := d, inbuf := b\<rparr>) evts
     = (foldl (render_event parse) c evts)\<lparr>dec := d, inbuf := b\<rparr>"
  by (induction evts arbitrary: c) (simp_all add: render_event_updates)

lemma on_chunk_frames:
  assumes "decode_stream d val = (d', x)"
  shows "on_chunk parse ((foldl (render_event parse) c0 (frames t))\<lparr>dec := d, inbuf := carry t\<rparr>) val
     = (foldl (render_event parse) c0 (frames (t @ x)))\<lparr>dec := d', inbuf := carry (t @ x)\<rparr>"
proof -
  let ?c = "foldl (render_event parse) c0 (frames t)"
  have "on_chunk parse (?c\<lparr>dec := d, inbuf := carry t\<rparr>) val
      = foldl (render_event parse) (?c\<lparr>dec := d', inbuf := carry (carry t @ x)\<rparr>)
          (frames (carry t @ x))"
    by (simp add: on_chunk_def assms pop_events_frames)
  also have "\<dots> = (foldl (render_event parse) ?c (frames (carry t @ x)))
                     \<lparr>dec := d', inbuf := carry (carry t @ x)\<rparr>"
    by (rule render_events_updates)
  also have "\<dots> = (foldl (render_event parse) c0 (frames (t @ x)))
                     \<lparr>dec := d', inbuf := carry (t @ x)\<rparr>"
    by (simp add: frames_append[of t x] carry_append[of t x])
  finally show ?thesis .
qed

lemma on_chunks_frames:
  assumes "decode_stream d (concat cs) = (d', x)"
  shows "foldl (on_chunk parse)
           ((foldl (render_event parse) c0 (frames t))\<lparr>dec := d, inbuf := carry t\<rparr>) cs
     = (foldl (render_event parse) c0 (frames (t @ x)))\<lparr>dec := d', inbuf := carry (t @ x)\<rparr>"
  using assms
proof (induction cs arbitrary: d t x d')
  case Nil
  then show ?case by simp
next
  case (Cons c cs)
  obtain d1 x1 where c: "decode_stream d c = (d1, x1)" by (cases "decode_stream d c")
  obtain d2 x2 where r: "decode_stream d1 (concat cs) = (d2, x2)"
    by (cases "decode_stream d1 (concat cs)")
  from Cons.prems c r have e: "d' = d2" "x = x1 @ x2"
    by (simp_all add: decode_stream_append)
  show ?case
    using Cons.IH[OF r, of "t @ x1"] by (simp add: on_chunk_frames[OF c] e)
qed

lemma consumer_frames:
  assumes "decode_stream new_TextDecoder (concat cs) = (d', x)"
  shows "foldl (on_chunk parse) consumer_init cs
     = (foldl (render_event parse) consumer_init (frames x))\<lparr>dec := d', inbuf := carry x\<rparr>"
proof -
  have "consumer_init
      = (foldl (render_event parse) consumer_init (frames []))
          \<lparr>dec := new_TextDecoder, inbuf := carry []\<rparr>"
    by (simp add: consumer_init_def)
  then have "foldl (on_chunk parse) consumer_init cs
      = foldl (on_chunk parse) ((foldl (render_event parse) consumer_init (frames []))
          \<lparr>dec := new_TextDecoder, inbuf := carry []\<rparr>) cs"
    by simp
  also have "\<dots> = (foldl (render_event parse) consumer_init (frames ([] @ x)))
                     \<lparr>dec := d', inbuf := carry ([] @ x)\<rparr>"
    by (rule on_chunks_frames[OF assms])
  finally show ?thesis by simp
qed




lemma render_event_delta:
  assumes "LF \<notin> set p" and "delta_payload parse p d"
  shows "render_event parse c (js ''data: '' @ p) = c\<lparr>full := full c @ d, shown := shown c @ d\<rparr>"
proof -
  from assms(2) obtain j where "p \<noteq> js ''[DONE]''" "parse p = Some j"
    "\<not> truthy (get_prop (js ''__stored'') j)" "delta_content (Some j) = Some (JStr d)"
    by (auto simp: delta_payload_def split: option.splits)
  then show ?thesis
    by (simp add: render_event_def payload_of_data[OF assms(1)])
qed

lemma render_events_deltas:
  assumes "list_all2 (delta_payload parse) ps ds" and "\<forall>p\<in>set ps. LF \<notin> set p"
  shows "foldl (render_event parse) c (map (\<lambda>p. js ''data: '' @ p) ps)
     = c\<lparr>full := full c @ concat ds, shown := shown c @ concat ds\<rparr>"
  using assms
proof (induction ps ds arbitrary: c rule: list_all2_induct)
  case Nil
  show ?case by simp
next
  case (Cons p ps d ds)
  then show ?case by (simp add: render_event_delta)
qed

lemma consumer_reassembles:
  assumes "snd (decode_stream new_TextDecoder (concat cs)) = concat (map data_frame ps)"
    and "\<forall>p\<in>set ps. LF \<notin> set p"
    and "list_all2 (delta_payload parse) ps ds"
  shows "full (foldl (on_chunk parse) consumer_init cs) = concat ds"
    and "shown (foldl (on_chunk parse) consumer_init cs) = concat ds"
    and "inbuf (foldl (on_chunk parse) consumer_init cs) = []"
proof -
  obtain d' x where d: "decode_stream new_TextDecoder (concat cs) = (d', x)"
    by (cases "decode_stream new_TextDecoder (concat cs)")
  with assms(1) have x: "x = concat (map data_frame ps)" by simp
  show "full (foldl (on_chunk parse) consumer_init cs) = concat ds"
    and "shown (foldl (on_chunk parse) consumer_init cs) = concat ds"
    and "inbuf (foldl (on_chunk parse) consumer_init cs) = []"
    unfolding consumer_frames[OF d] x frames_data_frames[OF assms(2)]
      render_events_deltas[OF assms(3,2)]
    by (simp_all add: consumer_init_def)
qed



subsection \<open>the consumer of public/chat.js\<close>

lemma on_chunks_public_frames:
  assumes "decode_stream d (concat cs) = (d', x)"
  shows "foldl (on_chunk_public parse)
           (d, carry t, foldl (capture_event parse) a (frames t)) cs
     = (d', carry (t @ x), foldl (capture_event parse) a (frames (t @ x)))"
  using assms
proof (induction cs arbitrary: d t x d')
  case Nil
  then show ?case by simp
next
  case (Cons c cs)
  obtain d1 x1 where c: "decode_stream d c = (d1, x1)" by (cases "decode_stream d c")
  obtain d2 x2 where r: "decode_stream d1 (concat cs) = (d2, x2)"
    by (cases "decode_stream d1 (concat cs)")
  from Cons.prems c r have e: "d' = d2" "x = x1 @ x2"
    by (simp_all add: decode_stream_append)
  have "on_chunk_public parse (d, carry t, foldl (capture_event parse) a (frames t)) c
          = (d1, carry (t @ x1), foldl (capture_event parse) a (frames (t @ x1)))"
    by (simp add: on_chunk_public_def c capture_chunk_frames)
  then show ?case
    using Cons.IH[OF r, of "t @ x1"] by (simp add: e)
qed

lemma public_reassembles:
  assumes "snd (decode_stream new_TextDecoder (concat cs)) = concat (map data_frame ps)"
    and "\<forall>p\<in>set ps. LF \<notin> set p"
    and "list_all2 (delta_payload parse) ps ds"
  shows "fst (read_loop_public parse \<lparr>chunks = cs, ending = e\<rparr>) = concat ds"
proof -
  obtain d' x where d: "decode_stream new_TextDecoder (concat cs) = (d', x)"
    by (cases "decode_stream new_TextDecoder (concat cs)")
  with assms(1) have x: "x = concat (map data_frame ps)" by simp
  have "foldl (on_chunk_public parse) (new_TextDecoder, [], []) cs
      = (d', carry x, foldl (capture_event parse) [] (frames x))"
    using on_chunks_public_frames[OF d, of parse "[]" "[]"] by simp
  then show ?thesis
    unfolding x frames_data_frames[OF assms(2)]
    by (simp add: read_loop_public_def capture_events_deltas[OF assms(3,2)])
qed





section \<open>Facts about the route\<close>

lemma validatedE:
  assumes "validated P req w = Some (cid, text, st)"
  obtains body where "json_body req = Some body" "content_of body = Some text" "text \<noteq> []"
    "truthy (opt_chain (Some body) (get_prop (js ''chat_id'')))"
    "Option.bind (opt_chain (Some body) (get_prop (js ''chat_id''))) (bind_text P) = Some cid"
    "chatExists (db w) cid" "st = stream_of body"
  using assms unfolding validated_def
  by (auto simp: Let_def split: option.splits if_splits)

lemma routeChat_accepted:
  assumes "validated P req w = Some (cid, text, st)"
  shows "routeChat P e req w = forward P e req cid text st w"
proof -
  from assms obtain body where "json_body req = Some body" "content_of body = Some text" "text \<noteq> []"
    "truthy (opt_chain (Some body) (get_prop (js ''chat_id'')))"
    "Option.bind (opt_chain (Some body) (get_prop (js ''chat_id''))) (bind_text P) = Some cid"
    "chatExists (db w) cid" "st = stream_of body"
    by (rule validatedE)
  then show ?thesis
    unfolding routeChat_def by (simp add: Let_def)
qed

lemma routeChat_rejected:
  "validated P req w = None \<Longrightarrow> snd (routeChat P e req w) = (w, None)"
  unfolding validated_def routeChat_def
  by (auto simp: Let_def split: option.split if_split)

subsection \<open>trim\<close>

lemma dropWhile_hd: "dropWhile P xs = y # ys \<Longrightarrow> \<not> P y"
  by (metis dropWhile_eq_Cons_conv)

lemma trim_idem: "trim (trim s) = trim s"
proof -
  define u where "u = dropWhile is_space s"
  define v where "v = dropWhile is_space (rev u)"
  have t: "trim s = rev v" by (simp add: trim_def u_def v_def)
  have v2: "dropWhile is_space v = v" by (simp add: v_def)
  have "dropWhile is_space (rev v) = rev v"
  proof (cases "rev v")
    case Nil then show ?thesis by simp
  next
    case (Cons a as)
    have "v \<noteq> []" using Cons by auto
    then have "rev u \<noteq> []" by (auto simp: v_def)
    then obtain b bs where u: "u = b # bs" by (cases u) auto
    then have nb: "\<not> is_space b" using dropWhile_hd[of is_space s b bs] by (simp add: u_def)
    obtain k where "v = drop k (rev u)" unfolding v_def
      by (metis dropWhile_eq_drop)
    then have "rev v = take (length u - k) u"
      by (simp add: rev_drop take_rev rev_take)
    with Cons u have "a = b" by (cases "length u - k") (auto)
    with nb Cons show ?thesis by simp
  qed
  then have "trim (rev v) = rev v" by (simp add: trim_def [of "rev v"] v2)
  then show ?thesis by (simp only: t)
qed

lemma trim_Nil [simp]: "trim [] = []"
  by (simp add: trim_def)

lemma content_of_trimmed: "content_of body = Some text \<Longrightarrow> trim text = text"
  unfolding content_of_def
  by (auto simp: trim_idem split: option.splits json.splits)

subsection \<open>steps of forward\<close>

lemma insertMessage_simps [simp]:
  "log (insertMessage P c r t w) = log w @ [Insert c r t]"
  "chats (db (insertMessage P c r t w)) = chats (db w)"
  "messages (db (insertMessage P c r t w)) =
     messages (db w) @ [(c, \<lparr>role = r, content = t, created_at = Date_now P (clock_reads w)\<rparr>)]"
  by (simp_all add: insertMessage_def Let_def)

lemma updateChatTitleIfEmpty_simps [simp]:
  "log (updateChatTitleIfEmpty c t w) = log w @ [SetTitle c (take 48 (trim t))]"
  "messages (db (updateChatTitleIfEmpty c t w)) = messages (db w)"
  "chats (db (updateChatTitleIfEmpty c t w)) =
     map (\<lambda>x. if id x = c \<and> (title x = None \<or> title x = Some [])
               then x\<lparr>title := Some (take 48 (trim t))\<rparr> else x) (chats (db w))"
  by (auto simp: updateChatTitleIfEmpty_def Let_def slice0_def NULLIF_def COALESCE_def)

lemma store_reply_cases:
  "store_reply P c t w = w \<or> store_reply P c t w = w\<lparr>clock_reads := Suc (clock_reads w)\<rparr>
   \<or> (\<exists>m. store_reply P c t w = insertMessage P c Assistant m w)"
  unfolding store_reply_def by (auto split: option.split)

lemma store_reply_log:
  "log (store_reply P c t w) = log w \<or> (\<exists>m. log (store_reply P c t w) = log w @ [Insert c Assistant m])"
  using store_reply_cases[of P c t w] by (elim disjE exE) auto

lemma store_reply_chats [simp]: "chats (db (store_reply P c t w)) = chats (db w)"
  using store_reply_cases[of P c t w] by (elim disjE exE) auto




lemma saved_simps [simp]:
  "log (saved P c t w) = log w @ [Insert c User t, SetTitle c (take 48 (trim t))]"
  "messages (db (saved P c t w)) =
     messages (db w) @ [(c, \<lparr>role = User, content = t, created_at = Date_now P (clock_reads w)\<rparr>)]"
  "chats (db (saved P c t w)) =
     map (\<lambda>x. if id x = c \<and> (title x = None \<or> title x = Some [])
               then x\<lparr>title := Some (take 48 (trim t))\<rparr> else x) (chats (db w))"
  by (simp_all add: saved_def)

lemma forward_no_key:
  "apiKey_of e req = None \<Longrightarrow>
   forward P e req cid text st w = (badJSON 401 ''Missing DEEPSEEK_API_KEY'', saved P cid text w, None)"
  by (simp add: forward_def saved_def Let_def)

lemma reply_whole_world:
  assumes "reply_whole P c r w = (out, w', so)"
  shows "so = None" and "w' = w \<or> (\<exists>t. w' = store_reply P c t w)"
  using assms unfolding reply_whole_def by (auto split: option.splits)

lemma reply_stream_world:
  assumes "reply_stream c r w = (out, w', so)"
  shows "w' = w"
  using assms unfolding reply_stream_def by (auto split: option.splits if_splits)

lemma forward_key:
  assumes "apiKey_of e req = Some k"
  shows "forward P e req cid text st w =
    (let p = \<lparr>model = DS_MODEL,
               sent_messages = finalMessages_of (getMessages (db (saved P cid text w)) cid 1000),
               sent_stream = st, bearer = k\<rparr>;
         w3 = (saved P cid text w)\<lparr>log := log (saved P cid text w) @ [Fetch p]\<rparr>
     in case fetch P p of
          None \<Rightarrow> (Threw, w3, None)
        | Some r \<Rightarrow> if \<not> st then reply_whole P cid r w3 else reply_stream cid r w3)"
  unfolding forward_def saved_def Let_def assms by (simp only: option.case)

lemma forward_shape:
  assumes "forward P e req cid text st w = (out, w', so)"
  shows "db w' = db (saved P cid text w) \<and> log w' = log (saved P cid text w) \<and> so = None
       \<or> (\<exists>p. db w' = db (saved P cid text w) \<and> log w' = log (saved P cid text w) @ [Fetch p]
              \<and> sent_stream p = st
              \<and> sent_messages p = finalMessages_of (getMessages (db (saved P cid text w)) cid 1000))
       \<or> (\<exists>p m. chats (db w') = chats (db (saved P cid text w))
              \<and> log w' = log (saved P cid text w) @ [Fetch p, Insert cid Assistant m]
              \<and> sent_stream p = st \<and> so = None
              \<and> sent_messages p = finalMessages_of (getMessages (db (saved P cid text w)) cid 1000))"
proof (cases "apiKey_of e req")
  case None
  with assms show ?thesis by (simp add: forward_no_key)
next
  case (Some k)
  define w2 where "w2 = saved P cid text w"
  define p where "p = \<lparr>model = DS_MODEL, sent_messages = finalMessages_of (getMessages (db w2) cid 1000),
                             sent_stream = st, bearer = k\<rparr>"
  define w3 where "w3 = w2\<lparr>log := log w2 @ [Fetch p]\<rparr>"
  have w3: "db w3 = db w2" "log w3 = log w2 @ [Fetch p]" by (simp_all add: w3_def)
  have sp: "sent_stream p = st" "sent_messages p = finalMessages_of (getMessages (db w2) cid 1000)"
    by (simp_all add: p_def)
  have fw: "forward P e req cid text st w =
     (case fetch P p of None \<Rightarrow> (Threw, w3, None)
      | Some r \<Rightarrow> if \<not> st then reply_whole P cid r w3 else reply_stream cid r w3)"
    unfolding forward_key[OF Some] w2_def p_def w3_def Let_def ..
  have "w' = w3 \<or> (\<exists>t. w' = store_reply P cid t w3 \<and> so = None)"
  proof (cases "fetch P p")
    case None
    with fw assms show ?thesis by simp
  next
    case (Some r)
    show ?thesis
    proof (cases st)
      case True
      with fw Some assms have "reply_stream cid r w3 = (out, w', so)" by simp
      then show ?thesis by (simp add: reply_stream_world)
    next
      case False
      with fw Some assms have "reply_whole P cid r w3 = (out, w', so)" by simp
      from reply_whole_world[OF this] show ?thesis by auto
    qed
  qed
  then show ?thesis
  proof
    assume "w' = w3"
    then show ?thesis using w3 sp unfolding w2_def by auto
  next
    assume "\<exists>t. w' = store_reply P cid t w3 \<and> so = None"
    then obtain t where t: "w' = store_reply P cid t w3" "so = None" by blast
    from store_reply_cases[of P cid t w3] show ?thesis
      using w3 sp t unfolding w2_def by (elim disjE exE) auto
  qed
qed

subsection \<open>reading a log\<close>

lemma fetches_append [simp]: "fetches (xs @ ys) = fetches xs @ fetches ys"
  by (induction xs rule: fetches.induct) simp_all

lemma inserts_of_append [simp]: "inserts_of r (xs @ ys) = inserts_of r xs @ inserts_of r ys"
  by (induction r xs rule: inserts_of.induct) simp_all

lemma title_updates_append [simp]: "title_updates (xs @ ys) = title_updates xs @ title_updates ys"
  by (induction xs rule: title_updates.induct) simp_all

lemma enqueued_append [simp]: "enqueued (xs @ ys) = enqueued xs @ enqueued ys"
  by (induction xs rule: enqueued.induct) simp_all

lemma closes_append [simp]: "closes (xs @ ys) = closes xs + closes ys"
  by (induction xs rule: closes.induct) simp_all

lemma enqueued_map_Enqueue [simp]: "enqueued (map Enqueue cs) = cs"
  by (induction cs) simp_all

lemma inserts_of_map_Enqueue [simp]: "inserts_of r (map Enqueue cs) = []"
  by (induction cs) simp_all

lemma closes_map_Enqueue [simp]: "closes (map Enqueue cs) = 0"
  by (induction cs) simp_all

lemma fetches_store_reply [simp]: "fetches (log (store_reply P c t w)) = fetches (log w)"
  using store_reply_log[of P c t w] by (elim disjE exE) simp_all


subsection \<open>runs of the output stream\<close>

lemma captured_simps [simp]:
  "captured parse st [] = st"
  "captured parse st (c # cs) = captured parse (capture_chunk parse st (decode c)) cs"
  by (simp_all add: captured_def)

lemma pull_chunk:
  "pending s = c # cs \<Longrightarrow>
   pull P s w = (More, s\<lparr>pending := cs,
                          buffer := fst (capture_chunk (JSON_parse P) (buffer s, assistant s) (decode c)),
                          assistant := snd (capture_chunk (JSON_parse P) (buffer s, assistant s) (decode c))\<rparr>,
                 w\<lparr>log := log w @ [Enqueue c]\<rparr>)"
  by (simp add: pull_def Let_def split: prod.split)

lemma pull_done:
  "pending s = [] \<Longrightarrow> at_end s = Done \<Longrightarrow>
   pull P s w = (Closed, s,
     (if trim (assistant s) \<noteq> [] then insertMessage P (chat_id s) Assistant (assistant s) w else w)
       \<lparr>log := log (if trim (assistant s) \<noteq> [] then insertMessage P (chat_id s) Assistant (assistant s) w else w)
                 @ [Enqueue stored_frame, Close]\<rparr>)"
  by (simp add: pull_def Let_def)

lemma pull_failed:
  "pending s = [] \<Longrightarrow> at_end s = Failed \<Longrightarrow> pull P s w = (Errored, s, w)"
  by (simp add: pull_def)

lemma pulls_within:
  "n \<le> length (pending s) \<Longrightarrow>
   pulls P n s w = (More, after_chunks P n s, w\<lparr>log := log w @ map Enqueue (take n (pending s))\<rparr>)"
proof (induction n arbitrary: s w)
  case 0
  show ?case by (simp add: after_chunks_def)
next
  case (Suc n)
  then obtain c cs where p: "pending s = c # cs" by (cases "pending s") auto
  define s1 where "s1 = s\<lparr>pending := cs,
                          buffer := fst (capture_chunk (JSON_parse P) (buffer s, assistant s) (decode c)),
                          assistant := snd (capture_chunk (JSON_parse P) (buffer s, assistant s) (decode c))\<rparr>"
  have s1: "pending s1 = cs" by (simp add: s1_def)
  have "pulls P (Suc n) s w = pulls P n s1 (w\<lparr>log := log w @ [Enqueue c]\<rparr>)"
    by (simp add: pull_chunk[OF p] s1_def)
  also have "\<dots> = (More, after_chunks P n s1, w\<lparr>log := log w @ [Enqueue c] @ map Enqueue (take n cs)\<rparr>)"
    using Suc.prems p by (subst Suc.IH) (simp_all add: s1)
  also have "after_chunks P n s1 = after_chunks P (Suc n) s"
    by (simp add: after_chunks_def s1_def p)
  finally show ?case by (simp add: p)
qed

lemma pulls_beyond:
  assumes "length (pending s) < n"
  shows "pulls P n s w =
           pull P (after_chunks P (length (pending s)) s) (w\<lparr>log := log w @ map Enqueue (pending s)\<rparr>)"
  using assms
proof (induction n arbitrary: s w)
  case 0
  then show ?case by simp
next
  case (Suc n)
  show ?case
  proof (cases "pending s")
    case Nil
    have a: "after_chunks P 0 s = s" by (simp add: after_chunks_def)
    have "fst (pull P s w) \<noteq> More" using Nil by (cases "at_end s") (simp_all add: pull_done pull_failed)
    then have "pulls P (Suc n) s w = pull P s w"
      by (cases "pull P s w") (auto split: pulled.splits)
    then show ?thesis using Nil by (simp add: a)
  next
    case (Cons c cs)
    define s1 where "s1 = s\<lparr>pending := cs,
                          buffer := fst (capture_chunk (JSON_parse P) (buffer s, assistant s) (decode c)),
                          assistant := snd (capture_chunk (JSON_parse P) (buffer s, assistant s) (decode c))\<rparr>"
    have s1: "pending s1 = cs" by (simp add: s1_def)
    have "pulls P (Suc n) s w = pulls P n s1 (w\<lparr>log := log w @ [Enqueue c]\<rparr>)"
      by (simp add: pull_chunk[OF Cons] s1_def)
    also have "\<dots> = pull P (after_chunks P (length cs) s1)
                       (w\<lparr>log := log w @ [Enqueue c] @ map Enqueue cs\<rparr>)"
      using Suc.prems Cons by (subst Suc.IH) (simp_all add: s1)
    also have "after_chunks P (length cs) s1 = after_chunks P (length (pending s)) s"
      by (simp add: after_chunks_def s1_def Cons)
    finally show ?thesis by (simp add: Cons)
  qed
qed



lemma title_updates_map_Enqueue [simp]: "title_updates (map Enqueue cs) = []"
  by (induction cs) simp_all

lemma fetches_map_Enqueue [simp]: "fetches (map Enqueue cs) = []"
  by (induction cs) simp_all

lemma pull_chats: "chats (db (snd (snd (pull P s w)))) = chats (db w)"
proof (cases "pending s")
  case Nil
  then show ?thesis by (cases "at_end s") (simp_all add: pull_done pull_failed)
next
  case (Cons c cs)
  then show ?thesis by (simp add: pull_chunk)
qed

lemma pulls_chats: "chats (db (snd (snd (pulls P n s w)))) = chats (db w)"
proof (induction n arbitrary: s w)
  case 0
  show ?case by simp
next
  case (Suc n)
  obtain r s1 w1 where p: "pull P s w = (r, s1, w1)" by (cases "pull P s w")
  with pull_chats[of P s w] have c: "chats (db w1) = chats (db w)" by simp
  show ?case
  proof (cases r)
    case More
    with p Suc.IH[of s1 w1] c show ?thesis by simp
  qed (use p c in simp_all)
qed

lemma after_chunks_fields [simp]:
  "pending (after_chunks P n s) = drop n (pending s)"
  "at_end (after_chunks P n s) = at_end s"
  "chat_id (after_chunks P n s) = chat_id s"
  by (simp_all add: after_chunks_def)

lemma pulls_cases:
  assumes "pulls P n s w = (r, s', w')"
  shows "(n \<le> length (pending s) \<and> r = More \<and> s' = after_chunks P n s
          \<and> db w' = db w \<and> log w' = log w @ map Enqueue (take n (pending s)))
       \<or> (length (pending s) < n \<and> at_end s = Failed \<and> r = Errored
          \<and> s' = after_chunks P (length (pending s)) s
          \<and> db w' = db w \<and> log w' = log w @ map Enqueue (pending s))
       \<or> (length (pending s) < n \<and> at_end s = Done \<and> r = Closed
          \<and> s' = after_chunks P (length (pending s)) s
          \<and> chats (db w') = chats (db w)
          \<and> log w' = log w @ map Enqueue (pending s)
                @ (if trim (assistant s') = [] then []
                   else [Insert (chat_id s) Assistant (assistant s')])
                @ [Enqueue stored_frame, Close])"
proof (cases "n \<le> length (pending s)")
  case True
  with assms show ?thesis by (auto simp: pulls_within)
next
  case False
  then have n: "length (pending s) < n" by simp
  let ?s = "after_chunks P (length (pending s)) s"
  let ?w = "w\<lparr>log := log w @ map Enqueue (pending s)\<rparr>"
  have p: "pull P ?s ?w = (r, s', w')"
    using assms pulls_beyond[OF n, of P w] by simp
  have e: "pending ?s = []" by simp
  show ?thesis
  proof (cases "at_end s")
    case Done
    then have "at_end ?s = Done" by simp
    from pull_done[OF e this, of P ?w] p n Done show ?thesis by auto
  next
    case Failed
    then have "at_end ?s = Failed" by simp
    from pull_failed[OF e this, of P ?w] p n Failed show ?thesis by auto
  qed
qed

lemma reply_stream_Some:
  assumes "reply_stream c r w = (out, w', Some s)"
  shows "out = Response 200 StreamOut \<and> w' = w
       \<and> (\<exists>b. ds_body r = Some b
              \<and> s = \<lparr>pending = chunks b, at_end = ending b, buffer = [], assistant = [],
                      chat_id = c\<rparr>)"
  using assms unfolding reply_stream_def by (auto split: option.splits if_splits)

lemma forward_Some:
  assumes "forward P e req cid text st w = (out, w', Some s)"
  shows "st \<and> (\<exists>p r b. fetch P p = Some r \<and> ds_body r = Some b
           \<and> s = \<lparr>pending = chunks b, at_end = ending b, buffer = [], assistant = [],
                   chat_id = cid\<rparr>
           \<and> out = Response 200 StreamOut
           \<and> db w' = db (saved P cid text w)
           \<and> log w' = log (saved P cid text w) @ [Fetch p])"
proof (cases "apiKey_of e req")
  case None
  with assms show ?thesis by (simp add: forward_no_key)
next
  case (Some k)
  define p where "p = \<lparr>model = DS_MODEL,
      sent_messages = finalMessages_of (getMessages (db (saved P cid text w)) cid 1000),
      sent_stream = st, bearer = k\<rparr>"
  define w3 where "w3 = (saved P cid text w)\<lparr>log := log (saved P cid text w) @ [Fetch p]\<rparr>"
  have fw: "forward P e req cid text st w =
     (case fetch P p of None \<Rightarrow> (Threw, w3, None)
      | Some r \<Rightarrow> if \<not> st then reply_whole P cid r w3 else reply_stream cid r w3)"
    unfolding forward_key[OF Some] p_def w3_def Let_def ..
  show ?thesis
  proof (cases "fetch P p")
    case None
    with fw assms show ?thesis by simp
  next
    case r: (Some r)
    show ?thesis
    proof (cases st)
      case False
      with fw r assms have "reply_whole P cid r w3 = (out, w', Some s)" by simp
      from reply_whole_world(1)[OF this] show ?thesis by simp
    next
      case True
      with fw r assms have "reply_stream cid r w3 = (out, w', Some s)" by simp
      from reply_stream_Some[OF this] r True show ?thesis
        by (auto simp: w3_def)
    qed
  qed
qed

lemma routeChat_Some:
  assumes "routeChat P e req w = (out, w', Some s)"
  shows "\<exists>cid text p r b. validated P req w = Some (cid, text, True)
           \<and> fetch P p = Some r \<and> ds_body r = Some b
           \<and> s = \<lparr>pending = chunks b, at_end = ending b, buffer = [], assistant = [],
                   chat_id = cid\<rparr>
           \<and> out = Response 200 StreamOut
           \<and> db w' = db (saved P cid text w)
           \<and> log w' = log (saved P cid text w) @ [Fetch p]"
proof (cases "validated P req w")
  case None
  from routeChat_rejected[OF None, of e] assms show ?thesis by simp
next
  case (Some v)
  obtain cid body_text st where v: "v = (cid, body_text, st)" by (cases v)
  with Some have val: "validated P req w = Some (cid, body_text, st)" by simp
  from routeChat_accepted[OF val, of e] assms
  have fw: "forward P e req cid body_text st w = (out, w', Some s)" by simp
  from forward_Some[OF fw] val show ?thesis by auto
qed


subsection \<open>the history that is sent\<close>

lemma insort_key_snoc:
  "f a \<le> f x \<Longrightarrow> insort_key f a (ys @ [x]) = insort_key f a ys @ [x]"
  by (induction ys) simp_all

lemma sort_key_snoc:
  "\<forall>y\<in>set xs. f y \<le> f x \<Longrightarrow> sort_key f (xs @ [x]) = sort_key f xs @ [x]"
proof (induction xs)
  case Nil
  show ?case by simp
next
  case (Cons a xs)
  then have "sort_key f (xs @ [x]) = sort_key f xs @ [x]" by simp
  with Cons.prems show ?case by (simp add: insort_key_snoc)
qed

lemma getMessages_stored_history: "getMessages d c n = take n (stored_history d c)"
  by (simp add: getMessages_def stored_history_def)

lemma length_stored_history:
  "length (stored_history d c) = length (filter (\<lambda>r. fst r = c) (messages d))"
  by (simp add: stored_history_def)

lemma stored_history_saved:
  "stored_history (db (saved P c t w)) c = stored_history (db (insertMessage P c User t w)) c"
  by (simp add: stored_history_def)

lemma stored_history_insert_last:
  assumes "\<forall>m\<in>set (stored_history (db w) c). created_at m \<le> Date_now P (clock_reads w)"
  shows "stored_history (db (insertMessage P c r t w)) c =
           stored_history (db w) c
           @ [\<lparr>role = r, content = t, created_at = Date_now P (clock_reads w)\<rparr>]"
proof -
  let ?old = "map snd (filter (\<lambda>r. fst r = c) (messages (db w)))"
  let ?m = "\<lparr>role = r, content = t, created_at = Date_now P (clock_reads w)\<rparr>"
  have "\<forall>y\<in>set ?old. created_at y \<le> created_at ?m"
    using assms by (simp add: stored_history_def)
  from sort_key_snoc[OF this] show ?thesis
    by (simp add: stored_history_def)
qed

lemma slice_last_all: "length xs \<le> n \<Longrightarrow> slice_last n xs = xs"
  by (simp add: slice_last_def)

lemma length_slice_last: "length (slice_last n xs) = min n (length xs)"
  by (simp add: slice_last_def)

lemma last_slice_last: "xs \<noteq> [] \<Longrightarrow> 0 < n \<Longrightarrow> last (slice_last n xs) = last xs"
  by (simp add: slice_last_def)

lemma forward_with_key:
  assumes "apiKey_of e req = Some k"
    and "forward P e req cid text st w = (out, w', so)"
  shows "\<exists>p. fetches (log w') = fetches (log w) @ [p]
           \<and> sent_messages p = finalMessages_of (getMessages (db (saved P cid text w)) cid 1000)
           \<and> sent_stream p = st \<and> bearer p = k \<and> model p = DS_MODEL"
proof -
  define p where "p = \<lparr>model = DS_MODEL,
      sent_messages = finalMessages_of (getMessages (db (saved P cid text w)) cid 1000),
      sent_stream = st, bearer = k\<rparr>"
  define w3 where "w3 = (saved P cid text w)\<lparr>log := log (saved P cid text w) @ [Fetch p]\<rparr>"
  have fw: "forward P e req cid text st w =
     (case fetch P p of None \<Rightarrow> (Threw, w3, None)
      | Some r \<Rightarrow> if \<not> st then reply_whole P cid r w3 else reply_stream cid r w3)"
    unfolding forward_key[OF assms(1)] p_def w3_def Let_def ..
  have f3: "fetches (log w3) = fetches (log w) @ [p]"
    by (simp add: w3_def)
  have "w' = w3 \<or> (\<exists>t. w' = store_reply P cid t w3)"
  proof (cases "fetch P p")
    case None
    with fw assms(2) show ?thesis by simp
  next
    case (Some r)
    show ?thesis
    proof (cases st)
      case True
      with fw Some assms(2) have "reply_stream cid r w3 = (out, w', so)" by simp
      then show ?thesis by (simp add: reply_stream_world)
    next
      case False
      with fw Some assms(2) have "reply_whole P cid r w3 = (out, w', so)" by simp
      from reply_whole_world(2)[OF this] show ?thesis .
    qed
  qed
  then have "fetches (log w') = fetches (log w) @ [p]"
    using f3 by auto
  then show ?thesis by (auto simp: p_def)
qed

lemma forwarded_messages:
  assumes "validated P req w = Some (cid, text, st)"
    and "apiKey_of e req = Some key"
    and "routeChat P e req w = (out, w', so)"
  shows "\<exists>p. fetches (log w') = fetches (log w) @ [p]
           \<and> sent_messages p =
               system_message # map as_sent (slice_last 30 (take 1000
                 (stored_history (db (insertMessage P cid User text w)) cid)))"
proof -
  have fw: "forward P e req cid text st w = (out, w', so)"
    using routeChat_accepted[OF assms(1), of e] assms(3) by simp
  from forward_with_key[OF assms(2) fw] show ?thesis
    by (auto simp: finalMessages_of_def getMessages_stored_history stored_history_saved)
qed


subsection \<open>the log of an accepted request\<close>




section \<open>The claims\<close>

text \<open>
  C5. Credential rejection before side effects: a chat-send with neither a bearer token
  nor a configured key is to be rejected with a status of its own, with no upstream call
  and no persistence write. The relay checks the key after it has saved: the request
  below is answered 401 and nothing is fetched, but the user message is in the store and
  the chat has its title.
\<close>

theorem missing_key_rejected_after_the_writes:
  "routeChat sample_platform no_key (ex_request ''c1'' '' Hi '') ex_world =
     (Response 401 (ErrorMessage (js ''Missing DEEPSEEK_API_KEY'')),
      \<lparr>db = \<lparr>chats = [\<lparr>id = js ''c1'', title = Some (js ''Hi''), created = 1\<rparr>,
                       \<lparr>id = js ''c2'', title = Some (js ''Old''), created = 2\<rparr>],
              messages = [(js ''c1'', \<lparr>role = User, content = js ''Hi'',
                                       created_at = 1700000000000\<rparr>)]\<rparr>,
       clock_reads = 1,
       log = [Insert (js ''c1'') User (js ''Hi''), SetTitle (js ''c1'') (js ''Hi'')]\<rparr>,
      None)"
  by (simp add: route_defs example_defs sample_platform_def)

text \<open>
  C9. Streaming is the default: \<open>stream\<close> is false only for a body whose \<open>stream\<close>
  field is the boolean \<open>false\<close>. For an accepted request with a key, the upstream request
  carries that flag, and against an upstream that answers 2xx with a body the route hands
  back \<open>streamOut\<close> exactly when the flag is set.
\<close>

theorem streaming_is_default:
  assumes "validated P req w = Some (cid, text, st)"
    and "json_body req = Some body"
    and "apiKey_of e req = Some key"
    and "fetch P = (\<lambda>p. Some r)" and "ds_ok r" and "ds_body r = Some b"
  shows "(st \<longleftrightarrow> opt_chain (Some body) (get_prop (js ''stream'')) \<noteq> Some (JBool False))
       \<and> (\<exists>p. fetches (log (fst (snd (routeChat P e req w)))) = fetches (log w) @ [p]
              \<and> sent_stream p = st)
       \<and> (fst (routeChat P e req w) = Response 200 StreamOut \<longleftrightarrow> st)
       \<and> (snd (snd (routeChat P e req w)) \<noteq> None \<longleftrightarrow> st)"
proof -
  from assms(1) obtain body' where "json_body req = Some body'" "st = stream_of body'"
    by (rule validatedE)
  with assms(2) have flag: "st \<longleftrightarrow> opt_chain (Some body) (get_prop (js ''stream'')) \<noteq> Some (JBool False)"
    by (simp add: stream_of_def)
  define p where "p = \<lparr>model = DS_MODEL,
      sent_messages = finalMessages_of (getMessages (db (saved P cid text w)) cid 1000),
      sent_stream = st, bearer = key\<rparr>"
  define w3 where "w3 = (saved P cid text w)\<lparr>log := log (saved P cid text w) @ [Fetch p]\<rparr>"
  have f3: "fetches (log w3) = fetches (log w) @ [p]"
    by (simp add: w3_def)
  have rc: "routeChat P e req w = (if \<not> st then reply_whole P cid r w3 else reply_stream cid r w3)"
    unfolding routeChat_accepted[OF assms(1)] forward_key[OF assms(3)] Let_def p_def w3_def
    by (simp add: assms(4))
  show ?thesis
  proof (cases st)
    case True
    with rc assms(5,6) have "routeChat P e req w = (Response 200 StreamOut, w3,
        Some \<lparr>pending = chunks b, at_end = ending b, buffer = [], assistant = [], chat_id = cid\<rparr>)"
      by (simp add: reply_stream_def)
    with flag True f3 show ?thesis by (auto simp: p_def)
  next
    case False
    with rc have rw: "routeChat P e req w = reply_whole P cid r w3" by simp
    obtain out w' so where o: "reply_whole P cid r w3 = (out, w', so)" by (cases "reply_whole P cid r w3")
    from reply_whole_world[OF o] have so: "so = None" and w': "w' = w3 \<or> (\<exists>t. w' = store_reply P cid t w3)"
      by simp_all
    have out: "out \<noteq> Response 200 StreamOut"
      using o unfolding reply_whole_def
      by (auto simp: new_Response_def split: option.splits if_splits)
    have "fetches (log w') = fetches (log w) @ [p]"
      using w' f3 by auto
    with flag False rw o so out show ?thesis by (auto simp: p_def)
  qed
qed

theorem streaming_is_default_witness:
  "validated (answering \<lparr>chunks = [], ending = Done\<rparr>) (ex_request ''c1'' '' Hi '') ex_world
     = Some (js ''c1'', js ''Hi'', True)
   \<and> fst (routeChat (answering \<lparr>chunks = [], ending = Done\<rparr>) with_key
            (ex_request ''c1'' '' Hi '') ex_world) = Response 200 StreamOut"
proof -
  let ?b = "\<lparr>chunks = [], ending = Done\<rparr>"
  let ?r = "\<lparr>ds_status = 200, ds_content_type = None, ds_body = Some ?b\<rparr>"
  have v: "validated (answering ?b) (ex_request ''c1'' '' Hi '') ex_world
             = Some (js ''c1'', js ''Hi'', True)"
    by (rule validated_example)
  have b: "json_body (ex_request ''c1'' '' Hi '') = Some (ex_body ''c1'' '' Hi '')"
    by (simp add: ex_request_def)
  have k: "apiKey_of with_key (ex_request ''c1'' '' Hi '') = Some (js ''sk-1'')"
    by (simp add: apiKey_of_def with_key_def ex_request_def js_simps)
  have f: "fetch (answering ?b) = (\<lambda>p. Some ?r)"
    by (simp add: answering_def)
  have ok: "ds_ok ?r" and bd: "ds_body ?r = Some ?b"
    by (simp_all add: ds_ok_def)
  from streaming_is_default [OF v b k f ok bd] v show ?thesis
    by simp
qed

text \<open>
  C10. Title side effect on every send: an accepted chat-send makes, besides the message
  inserts, one title update. A chat whose title is null or empty gets the first 48 code
  units of the trimmed user text, a chat with a title keeps it, and no other column of any
  chat changes, neither in the route nor while the reply streams.
\<close>

theorem title_set_when_empty:
  assumes "validated P req w = Some (cid, text, st)"
    and "routeChat P e req w = (out, w', so)"
  shows "chats (db w') =
           map (\<lambda>c. if id c = cid \<and> (title c = None \<or> title c = Some [])
                     then c\<lparr>title := Some (take 48 text)\<rparr> else c) (chats (db w))
       \<and> title_updates (drop (length (log w)) (log w')) = [(cid, take 48 text)]
       \<and> (\<forall>s n. so = Some s \<longrightarrow>
             chats (db (snd (snd (pulls P n s w')))) = chats (db w')
             \<and> title_updates (log (snd (snd (pulls P n s w')))) = title_updates (log w'))"
proof -
  from assms(1) obtain body where "content_of body = Some text" by (rule validatedE)
  then have t: "trim text = text" by (rule content_of_trimmed)
  have fw: "forward P e req cid text st w = (out, w', so)"
    using routeChat_accepted[OF assms(1), of e] assms(2) by simp
  have "chats (db w') = chats (db (saved P cid text w))"
    using forward_shape[OF fw] by auto
  then have c: "chats (db w') =
           map (\<lambda>c. if id c = cid \<and> (title c = None \<or> title c = Some [])
                     then c\<lparr>title := Some (take 48 text)\<rparr> else c) (chats (db w))"
    by (simp only: saved_simps t)
  have l: "title_updates (drop (length (log w)) (log w')) = [(cid, take 48 text)]"
    using forward_shape[OF fw] by (auto simp: t)
  have p: "chats (db (snd (snd (pulls P n s w')))) = chats (db w')
        \<and> title_updates (log (snd (snd (pulls P n s w')))) = title_updates (log w')" for s n
  proof -
    obtain r s1 w1 where q: "pulls P n s w' = (r, s1, w1)" by (cases "pulls P n s w'")
    from pulls_cases[OF q] have "title_updates (log w1) = title_updates (log w')"
      by (elim disjE conjE) simp_all
    with q pulls_chats[of P n s w'] show ?thesis by simp
  qed
  from c l p show ?thesis by blast
qed

theorem title_set_when_empty_witness:
  "validated sample_platform (ex_request ''c1'' '' Hi '') ex_world
     = Some (js ''c1'', js ''Hi'', True)
   \<and> map title (chats (db (fst (snd (routeChat sample_platform no_key
                                       (ex_request ''c1'' '' Hi '') ex_world)))))
     = [Some (js ''Hi''), Some (js ''Old'')]"
proof -
  have v: "validated sample_platform (ex_request ''c1'' '' Hi '') ex_world
             = Some (js ''c1'', js ''Hi'', True)"
    by (rule validated_example)
  obtain out w' so where r:
    "routeChat sample_platform no_key (ex_request ''c1'' '' Hi '') ex_world = (out, w', so)"
    by (cases "routeChat sample_platform no_key (ex_request ''c1'' '' Hi '') ex_world")
  from title_set_when_empty [OF v r] have
    "chats (db w') =
       map (\<lambda>c. if id c = js ''c1'' \<and> (title c = None \<or> title c = Some [])
                 then c\<lparr>title := Some (take 48 (js ''Hi''))\<rparr> else c) (chats (db ex_world))"
    by blast
  then have "map title (chats (db w')) = [Some (js ''Hi''), Some (js ''Old'')]"
    by (simp add: ex_world_def js_simps)
  with v r show ?thesis by simp
qed

text \<open>
  C2. Tee fidelity: the chunks the relay enqueues on its output stream are the chunks of
  the upstream body, unchanged and in order, and once the upstream has ended and the
  caller has pulled that far, the frame \<open>data: {"__stored": true}\<close> after the last of
  them; at every moment of a run the output is a prefix of that sequence.
\<close>

theorem tee_fidelity:
  assumes "routeChat P e req w0 = (out, w, Some s)"
    and "pulls P n s w = (r, s', w')"
  shows "\<exists>p rsp b. fetch P p = Some rsp \<and> ds_body rsp = Some b
           \<and> (ending b = Done \<and> length (chunks b) < n \<longrightarrow>
                enqueued (log w') = enqueued (log w0) @ chunks b @ [stored_frame])
           \<and> prefix (enqueued (log w')) (enqueued (log w0) @ chunks b @ [stored_frame])"
proof -
  from routeChat_Some[OF assms(1)] obtain cid body_text p rsp b where
    f: "fetch P p = Some rsp" "ds_body rsp = Some b"
    and s: "s = \<lparr>pending = chunks b, at_end = ending b, buffer = [], assistant = [],
                 chat_id = cid\<rparr>"
    and l: "log w = log (saved P cid body_text w0) @ [Fetch p]"
    by blast
  have e0: "enqueued (log w) = enqueued (log w0)" by (simp add: l)
  have ps: "pending s = chunks b" "at_end s = ending b" by (simp_all add: s)
  have a: "ending b = Done \<and> length (chunks b) < n \<longrightarrow>
             enqueued (log w') = enqueued (log w0) @ chunks b @ [stored_frame]"
    using pulls_cases[OF assms(2)] by (auto simp: ps e0)
  have b: "prefix (enqueued (log w')) (enqueued (log w0) @ chunks b @ [stored_frame])"
    using pulls_cases[OF assms(2)]
  proof (elim disjE conjE)
    assume "log w' = log w @ map Enqueue (take n (pending s))"
    then have "enqueued (log w') = enqueued (log w0) @ take n (chunks b)" by (simp add: ps e0)
    moreover have "prefix (take n (chunks b)) (chunks b @ [stored_frame])"
      by (metis prefix_def append_take_drop_id append.assoc)
    ultimately show ?thesis by simp
  next
    assume "log w' = log w @ map Enqueue (pending s)"
    then have "enqueued (log w') = enqueued (log w0) @ chunks b" by (simp add: ps e0)
    then show ?thesis by simp
  next
    assume "log w' = log w @ map Enqueue (pending s)
              @ (if trim (assistant s') = [] then []
                 else [Insert (chat_id s) Assistant (assistant s')])
              @ [Enqueue stored_frame, Close]"
    then have "enqueued (log w') = enqueued (log w0) @ chunks b @ [stored_frame]"
      by (simp add: ps e0)
    then show ?thesis by simp
  qed
  from f a b show ?thesis by blast
qed


lemma example_stream:
  "fst (routeChat (answering b) with_key (ex_request ''c1'' '' Hi '') ex_world)
     = Response 200 StreamOut"
  "snd (snd (routeChat (answering b) with_key (ex_request ''c1'' '' Hi '') ex_world))
     = Some \<lparr>pending = chunks b, at_end = ending b, buffer = [], assistant = [],
             chat_id = js ''c1''\<rparr>"
proof -
  have k: "apiKey_of with_key (ex_request ''c1'' '' Hi '') = Some (js ''sk-1'')"
    by (simp add: apiKey_of_def with_key_def ex_request_def js_simps)
  show "fst (routeChat (answering b) with_key (ex_request ''c1'' '' Hi '') ex_world)
     = Response 200 StreamOut"
    unfolding routeChat_accepted[OF validated_example] forward_key[OF k]
    by (simp add: answering_def reply_stream_def ds_ok_def Let_def)
  show "snd (snd (routeChat (answering b) with_key (ex_request ''c1'' '' Hi '') ex_world))
     = Some \<lparr>pending = chunks b, at_end = ending b, buffer = [], assistant = [],
             chat_id = js ''c1''\<rparr>"
    unfolding routeChat_accepted[OF validated_example] forward_key[OF k]
    by (simp add: answering_def reply_stream_def ds_ok_def Let_def)
qed


theorem tee_fidelity_witness:
  "enqueued (log (snd (snd (pulls (answering \<lparr>chunks = [hi_chunk, done_chunk], ending = Done\<rparr>) 3
       \<lparr>pending = [hi_chunk, done_chunk], at_end = Done, buffer = [], assistant = [],
         chat_id = js ''c1''\<rparr>
       (fst (snd (routeChat (answering \<lparr>chunks = [hi_chunk, done_chunk], ending = Done\<rparr>)
                    with_key (ex_request ''c1'' '' Hi '') ex_world)))))))
     = [hi_chunk, done_chunk, stored_frame]"
proof -
  let ?b = "\<lparr>chunks = [hi_chunk, done_chunk], ending = Done\<rparr>"
  let ?P = "answering ?b"
  let ?s = "\<lparr>pending = [hi_chunk, done_chunk], at_end = Done, buffer = [], assistant = [],
             chat_id = js ''c1''\<rparr>"
  let ?rc = "routeChat ?P with_key (ex_request ''c1'' '' Hi '') ex_world"
  have rc: "?rc = (Response 200 StreamOut, fst (snd ?rc), Some ?s)"
    using example_stream[of ?b] by (simp add: prod_eq_iff)
  obtain r s' w' where p: "pulls ?P 3 ?s (fst (snd ?rc)) = (r, s', w')"
    by (cases "pulls ?P 3 ?s (fst (snd ?rc))")
  from tee_fidelity [OF rc p] obtain q rsp b where
    f: "fetch ?P q = Some rsp" "ds_body rsp = Some b"
    and e: "ending b = Done \<and> length (chunks b) < 3 \<longrightarrow>
            enqueued (log w') = enqueued (log ex_world) @ chunks b @ [stored_frame]"
    by blast
  from f have "b = ?b" by (auto simp: answering_def)
  with e have "enqueued (log w') = [hi_chunk, done_chunk, stored_frame]"
    by (simp add: ex_world_def)
  with p show ?thesis by simp
qed



text \<open>
  C8. Sentinel and malformed-frame skipping: a frame whose payload is the literal
  \<open>[DONE]\<close>, and a frame whose payload \<open>JSON.parse\<close> rejects, leave the accumulated
  text as it was, and the loop goes on with the frames after it as if the frame had not
  been there.
\<close>

theorem done_and_malformed_frames_skipped:
  assumes "payload_of evt = Some payload"
    and "payload = js ''[DONE]'' \<or> parse payload = None"
  shows "capture_event parse a evt = a
       \<and> foldl (capture_event parse) a (before @ evt # rest)
           = foldl (capture_event parse) a (before @ rest)"
proof -
  have skip: "capture_event parse x evt = x" for x
    using assms by (auto simp: capture_event_def)
  then show ?thesis by simp
qed

theorem done_and_malformed_frames_skipped_witness:
  "payload_of (js ''data: [DONE]'') = Some (js ''[DONE]'')
   \<and> capture_event sample_parse (js ''Hi'') (js ''data: [DONE]'') = js ''Hi''
   \<and> payload_of (js ''data: ping'') = Some (js ''ping'') \<and> sample_parse (js ''ping'') = None
   \<and> capture_event sample_parse (js ''Hi'') (js ''data: ping'') = js ''Hi''"
proof -
  have d: "payload_of (js ''data: [DONE]'') = Some (js ''[DONE]'')"
    by (simp add: payload_of_def data_line_def strip_data_def is_space_def js_simps)
  have p: "payload_of (js ''data: ping'') = Some (js ''ping'')"
    by (simp add: payload_of_def data_line_def strip_data_def is_space_def js_simps)
  have n: "sample_parse (js ''ping'') = None"
    by (simp add: sample_defs)
  from done_and_malformed_frames_skipped [OF d, of sample_parse "js ''Hi''" "[]" "[]"]
    done_and_malformed_frames_skipped [OF p, of sample_parse "js ''Hi''" "[]" "[]"] d p n
  show ?thesis by simp
qed





text \<open>
  The non-streaming path does not trim: an upstream reply of one blank is stored as the
  assistant message.
\<close>

lemma blank_reply_is_stored:
  "inserts_of Assistant (log (fst (snd (routeChat blank_reply with_key
       (whole_request ''c1'' '' Hi '') ex_world)))) = [(js ''c1'', js '' '')]"
  by (simp add: route_defs whole_request_def ex_world_def with_key_def blank_reply_def
      store_reply_def message_content_def choice0_def text_of_def decoder_defs
      reply_parse_def message_head_def delta_tail_def plain_unit_def suffix_def
      new_Response_def as_sent_def system_message_def)

text \<open>
  C6, as the relay has it. History forwarded: for an accepted chat-send with a key, the
  messages sent upstream are the system prompt followed by the last thirty messages of the
  conversation, oldest first, read after the user message is inserted (conversations of
  at most a thousand messages). That is the full history exactly when the conversation
  holds at most thirty messages. When no stored message is later than the new one, the
  just-inserted user message is the last entry.
\<close>

theorem last_thirty_forwarded:
  assumes "validated P req w = Some (cid, text, st)"
    and "apiKey_of e req = Some key"
    and "routeChat P e req w = (out, w', so)"
    and "length (stored_history (db (insertMessage P cid User text w)) cid) \<le> 1000"
  shows "\<exists>p. fetches (log w') = fetches (log w) @ [p]
         \<and> sent_messages p =
             system_message # map as_sent (slice_last 30
               (stored_history (db (insertMessage P cid User text w)) cid))
         \<and> (sent_messages p =
               system_message # map as_sent
                 (stored_history (db (insertMessage P cid User text w)) cid)
             \<longleftrightarrow> length (stored_history (db (insertMessage P cid User text w)) cid) \<le> 30)
         \<and> ((\<forall>m\<in>set (stored_history (db w) cid).
                 created_at m \<le> Date_now P (clock_reads w)) \<longrightarrow>
              last (sent_messages p) =
                as_sent \<lparr>role = User, content = text,
                         created_at = Date_now P (clock_reads w)\<rparr>)"
proof -
  let ?H = "stored_history (db (insertMessage P cid User text w)) cid"
  from forwarded_messages[OF assms(1-3)] assms(4) obtain p where
    f: "fetches (log w') = fetches (log w) @ [p]"
    and m: "sent_messages p = system_message # map as_sent (slice_last 30 ?H)"
    by auto
  have full: "sent_messages p = system_message # map as_sent ?H \<longleftrightarrow> length ?H \<le> 30"
  proof
    assume "sent_messages p = system_message # map as_sent ?H"
    with m have "map as_sent (slice_last 30 ?H) = map as_sent ?H" by simp
    then have "length (slice_last 30 ?H) = length ?H" by (metis length_map)
    then show "length ?H \<le> 30" by (simp add: length_slice_last)
  next
    assume "length ?H \<le> 30"
    then show "sent_messages p = system_message # map as_sent ?H"
      by (simp add: m slice_last_all)
  qed
  have newest: "last (sent_messages p) =
                as_sent \<lparr>role = User, content = text, created_at = Date_now P (clock_reads w)\<rparr>"
    if "\<forall>m\<in>set (stored_history (db w) cid). created_at m \<le> Date_now P (clock_reads w)"
  proof -
    from stored_history_insert_last[OF that, of User "text"]
    have H: "?H = stored_history (db w) cid
               @ [\<lparr>role = User, content = text, created_at = Date_now P (clock_reads w)\<rparr>]" .
    then have "?H \<noteq> []" by simp
    then have "last (slice_last 30 ?H) = last ?H" by (simp add: last_slice_last)
    moreover have "slice_last 30 ?H \<noteq> []"
    proof
      assume "slice_last 30 ?H = []"
      then have "min 30 (length ?H) = 0" using length_slice_last[of 30 ?H] by simp
      then have "length ?H = 0" by linarith
      with \<open>?H \<noteq> []\<close> show False by simp
    qed
    ultimately show ?thesis by (simp add: m last_map H)
  qed
  from f m full newest show ?thesis by blast
qed


theorem last_thirty_forwarded_witness:
  "map sent_messages (fetches (log (fst (snd (routeChat sample_platform with_key
       (ex_request ''c1'' '' Hi '') ex_world)))))
     = [[system_message, as_sent \<lparr>role = User, content = js ''Hi'',
                                   created_at = 1700000000000\<rparr>]]"
proof -
  obtain out w' so where r:
    "routeChat sample_platform with_key (ex_request ''c1'' '' Hi '') ex_world = (out, w', so)"
    by (cases "routeChat sample_platform with_key (ex_request ''c1'' '' Hi '') ex_world")
  have k: "apiKey_of with_key (ex_request ''c1'' '' Hi '') = Some (js ''sk-1'')"
    by (simp add: apiKey_of_def with_key_def ex_request_def js_simps)
  have H: "stored_history (db (insertMessage sample_platform (js ''c1'') User (js ''Hi'') ex_world))
             (js ''c1'')
           = [\<lparr>role = User, content = js ''Hi'', created_at = 1700000000000\<rparr>]"
    by (simp add: stored_history_def ex_world_def sample_platform_def)
  have "length (stored_history
          (db (insertMessage sample_platform (js ''c1'') User (js ''Hi'') ex_world)) (js ''c1''))
        \<le> 1000"
    unfolding H by simp
  from last_thirty_forwarded [OF validated_example k r this]
  obtain p where "fetches (log w') = fetches (log ex_world) @ [p]"
    and "sent_messages p = system_message # map as_sent (slice_last 30
           (stored_history (db (insertMessage sample_platform (js ''c1'') User (js ''Hi'')
              ex_world)) (js ''c1'')))"
    by blast
  then have "map sent_messages (fetches (log w'))
     = [[system_message, as_sent \<lparr>role = User, content = js ''Hi'',
                                   created_at = 1700000000000\<rparr>]]"
    unfolding H by (simp add: slice_last_def ex_world_def)
  with r show ?thesis by simp
qed

text \<open>
  C6 as it was claimed has the full stored history sent. In the chat below thirty
  messages are stored before the send and thirty-one after it; the array sent upstream has
  thirty-one entries, the system prompt and the last thirty messages, and so is not the
  prompt followed by the full history.
\<close>

lemma validated_long:
  "validated P (ex_request ''c1'' '' Hi '') long_world = Some (js ''c1'', js ''Hi'', True)"
  by (simp add: validated_def example_defs long_world_def content_of_def trim_def is_space_def
      bind_text_def chatExists_def stream_of_def)

theorem long_history_cut_to_thirty:
  "map (\<lambda>p. length (sent_messages p))
     (fetches (log (fst (snd (routeChat sample_platform with_key
        (ex_request ''c1'' '' Hi '') long_world))))) = [31]
   \<and> length (stored_history
        (db (fst (snd (routeChat sample_platform with_key
           (ex_request ''c1'' '' Hi '') long_world)))) (js ''c1'')) = 31
   \<and> map sent_messages
        (fetches (log (fst (snd (routeChat sample_platform with_key
           (ex_request ''c1'' '' Hi '') long_world)))))
      \<noteq> [system_message # map as_sent (stored_history
           (db (fst (snd (routeChat sample_platform with_key
              (ex_request ''c1'' '' Hi '') long_world)))) (js ''c1''))]"
proof -
  let ?rc = "routeChat sample_platform with_key (ex_request ''c1'' '' Hi '') long_world"
  let ?W = "fst (snd ?rc)"
  let ?H = "stored_history (db (insertMessage sample_platform (js ''c1'') User (js ''Hi'')
              long_world)) (js ''c1'')"
  have k: "apiKey_of with_key (ex_request ''c1'' '' Hi '') = Some (js ''sk-1'')"
    by (simp add: apiKey_of_def with_key_def ex_request_def js_simps)
  have rc: "?rc = (fst ?rc, ?W, snd (snd ?rc))" by simp
  from forwarded_messages[OF validated_long k rc]
  obtain p where f: "fetches (log ?W) = fetches (log long_world) @ [p]"
    and m: "sent_messages p = system_message # map as_sent (slice_last 30 (take 1000 ?H))"
    by blast
  have f': "fetches (log ?W) = [p]"
    using f by (simp add: long_world_def ex_world_def)
  have lH: "length ?H = 31"
    by (simp add: length_stored_history long_world_def ex_world_def o_def)
  have lm: "length (sent_messages p) = 31"
    by (simp add: m length_slice_last lH)
  have db: "db ?W = db (saved sample_platform (js ''c1'') (js ''Hi'') long_world)"
    unfolding routeChat_accepted[OF validated_long] forward_key[OF k]
    by (simp add: sample_platform_def Let_def)
  have lW: "length (stored_history (db ?W) (js ''c1'')) = 31"
    by (simp add: db stored_history_saved lH)
  have "sent_messages p \<noteq> system_message # map as_sent (stored_history (db ?W) (js ''c1''))"
  proof
    assume "sent_messages p = system_message # map as_sent (stored_history (db ?W) (js ''c1''))"
    then have "length (sent_messages p) = Suc (length (stored_history (db ?W) (js ''c1'')))"
      by simp
    with lm lW show False by simp
  qed
  with f' lm lW show ?thesis by simp
qed




text \<open>
  C1. Lossless reassembly: for every way of cutting a stream of data frames into chunks,
  the text the relay accumulates, and the text the consumer shows, is to be the
  concatenation of the deltas. The relay decodes every chunk with a decoder of its own:
  below, the two bytes of \<open>U+00E9\<close> fall into two chunks. Taken as one chunk the stream
  yields the delta; cut in two, the relay accumulates \<open>U+FFFD U+FFFD\<close> and stores that,
  while the consumer, whose decoder carries over, shows the delta.
\<close>

theorem relay_breaks_a_split_character:
  "decode (split_1 @ split_2) = data_frame (delta_head @ [0xE9] @ delta_tail)
   \<and> delta_payload sample_parse (delta_head @ [0xE9] @ delta_tail) [0xE9]
   \<and> captured sample_parse ([], []) [split_1 @ split_2] = ([], [0xE9])
   \<and> captured sample_parse ([], []) [split_1, split_2] = ([], [0xFFFD, 0xFFFD])
   \<and> full (foldl (on_chunk sample_parse) consumer_init [split_1, split_2]) = [0xE9]
   \<and> inserts_of Assistant (log (snd (snd (pulls sample_platform 3
         \<lparr>pending = [split_1, split_2], at_end = Done, buffer = [], assistant = [],
           chat_id = js ''c1''\<rparr> ex_world))))
       = [(js ''c1'', [0xFFFD, 0xFFFD])]"
proof -
  let ?p = "delta_head @ [0xE9] @ delta_tail"
  have a: "decode (split_1 @ split_2) = data_frame ?p"
    by (simp add: split_1_def split_2_def data_frame_def delta_head_def delta_tail_def
        decoder_defs js_simps)
  have b: "delta_payload sample_parse ?p [0xE9]"
    by (simp add: delta_payload_def sample_defs delta_content_def choice0_def)
  have lf: "\<forall>p\<in>set [?p]. LF \<notin> set p"
    by (simp add: delta_head_def delta_tail_def js_simps)
  have c: "captured sample_parse ([], []) [split_1 @ split_2] = ([], [0xE9])"
    using relay_reassembles[of "[split_1 @ split_2]" "[?p]" sample_parse "[[0xE9]]"] a b lf
    by simp
  have d1: "decode split_1 = js ''data: {\"choices\":[{\"delta\":{\"content\":\"'' @ [0xFFFD]"
    by (simp add: split_1_def decoder_defs js_simps)
  have d2: "decode split_2 = [0xFFFD] @ js ''\"}}]}'' @ [LF, LF]"
    by (simp add: split_2_def decoder_defs js_simps)
  have d: "captured sample_parse ([], []) [split_1, split_2] = ([], [0xFFFD, 0xFFFD])"
    by (simp add: captured_def d1 d2 capture_defs sample_defs)
  have e: "snd (decode_stream new_TextDecoder (concat [split_1, split_2]))
             = concat (map data_frame [?p])"
    by (simp add: split_1_def split_2_def data_frame_def delta_head_def delta_tail_def
        decoder_defs js_simps)
  have f: "full (foldl (on_chunk sample_parse) consumer_init [split_1, split_2]) = [0xE9]"
    using consumer_reassembles(1)[OF e lf, of sample_parse "[[0xE9]]"] b by simp
  let ?s = "\<lparr>pending = [split_1, split_2], at_end = Done, buffer = [], assistant = [],
             chat_id = js ''c1''\<rparr>"
  obtain r s' w' where p: "pulls sample_platform 3 ?s ex_world = (r, s', w')"
    by (cases "pulls sample_platform 3 ?s ex_world")
  from pulls_cases[OF p]
  have s': "s' = after_chunks sample_platform (length (pending ?s)) ?s"
    and w': "log w' = log ex_world @ map Enqueue (pending ?s)
                @ (if trim (assistant s') = [] then []
                   else [Insert (chat_id ?s) Assistant (assistant s')])
                @ [Enqueue stored_frame, Close]"
    by simp_all
  have t: "assistant s' = [0xFFFD, 0xFFFD]"
    unfolding s' using d by (simp add: after_chunks_def sample_platform_def)
  have g: "inserts_of Assistant (log w') = [(js ''c1'', [0xFFFD, 0xFFFD])]"
    unfolding w' t by (simp add: ex_world_def trim_def is_space_def)
  from a b c d f g p show ?thesis by simp
qed

end
